theory Spec2Isabelle
  imports Complex_Main
begin

section \<open>Values, failures and settings\<close>

text \<open>
  The engine of \<^verbatim>\<open>retry-engine.ts\<close> handles values of unknown type. Only what the
  code inspects is kept: whether a value is a string or a number, and whether it is
  \<^verbatim>\<open>null\<close> or \<^verbatim>\<open>undefined\<close> (for the operator \<^verbatim>\<open>??\<close>). Strings are lists of
  8-bit characters. A number is a real; \<^verbatim>\<open>NaN\<close> and the infinities are \<open>JOther\<close>, since
  the only tests made on a number (\<^verbatim>\<open>=== 429\<close>, and \<^verbatim>\<open>>= 500 && < 600\<close>) fail for them
  as they fail for a value that is no number.
\<close>

datatype jsval = JUndefined | JNull | JNum real | JStr string | JOther

text \<open>
  A thrown value. \<open>ErrorObj m s c\<close> is an instance of \<^verbatim>\<open>Error\<close> with message \<open>m\<close> and
  properties \<^verbatim>\<open>status\<close> = \<open>s\<close>, \<^verbatim>\<open>statusCode\<close> = \<open>c\<close>; \<open>PlainObj m s c\<close> is any
  other object, with properties \<^verbatim>\<open>message\<close> = \<open>m\<close>, \<^verbatim>\<open>status\<close> = \<open>s\<close> and
  \<^verbatim>\<open>statusCode\<close> = \<open>c\<close> (an absent property is \<open>JUndefined\<close>); \<open>Primitive\<close> is a value
  that is no object, or \<^verbatim>\<open>null\<close>.
\<close>

datatype failure = ErrorObj string jsval jsval | PlainObj jsval jsval jsval | Primitive

datatype FilterMode = Whitelist | Blacklist

record FallbackModel =
  apiurl :: string
  key :: string
  model :: string
  source :: string

text \<open>
  The settings object of \<^verbatim>\<open>settings.ts\<close>, field by field. The schema makes the two retry
  counts integers from 1 up (to 20 and to 10), so they are natural numbers here; the
  durations are integers of milliseconds and the multiplier is a number from 1 to 5.
\<close>

record Settings =
  enabled :: bool
  maxRetries :: nat
  retryDelayMs :: int
  retryDelayMultiplier :: real
  rateLimitDelayMs :: int
  rateLimitMaxRetries :: nat
  streamingTimeoutMs :: int
  requiredContentEnabled :: bool
  requiredContentPattern :: string
  requiredContentIsRegex :: bool
  fallbackModelsEnabled :: bool
  fallbackModels :: "FallbackModel list"
  filterEnabled :: bool
  filterMode :: FilterMode
  filterGenerationIds :: "string list"
  showRetryToast :: bool
  showSuccessToast :: bool
  showFailureToast :: bool

text \<open>The defaults of the schema in \<^verbatim>\<open>settings.ts\<close>.\<close>

definition defaultSettings :: Settings where
  "defaultSettings =
     \<lparr>enabled = True, maxRetries = 3, retryDelayMs = 1000, retryDelayMultiplier = 3 / 2,
      rateLimitDelayMs = 30000, rateLimitMaxRetries = 5, streamingTimeoutMs = 30000,
      requiredContentEnabled = False, requiredContentPattern = [],
      requiredContentIsRegex = False, fallbackModelsEnabled = False, fallbackModels = [],
      filterEnabled = False, filterMode = Blacklist, filterGenerationIds = [],
      showRetryToast = True, showSuccessToast = True, showFailureToast = True\<rparr>"

section \<open>String helpers\<close>

text \<open>\<^verbatim>\<open>String.prototype.toLowerCase\<close> on the letters \<^verbatim>\<open>A\<close> to \<^verbatim>\<open>Z\<close>.\<close>

definition lowerChar :: "char \<Rightarrow> char" where
  "lowerChar c =
     (case map_of (zip ''ABCDEFGHIJKLMNOPQRSTUVWXYZ'' ''abcdefghijklmnopqrstuvwxyz'') c of
        Some l \<Rightarrow> l
      | None \<Rightarrow> c)"

definition toLowerCase :: "string \<Rightarrow> string" where
  "toLowerCase s = map lowerChar s"

text \<open>\<^verbatim>\<open>String.prototype.includes\<close>: does \<open>p\<close> occur in \<open>s\<close> as a contiguous run.\<close>

fun str_includes :: "string \<Rightarrow> string \<Rightarrow> bool" where
  "str_includes [] p = (p = [])"
| "str_includes (c # cs) p = (take (length p) (c # cs) = p \<or> str_includes cs p)"

section \<open>Error classifier\<close>

text \<open>\<^verbatim>\<open>error.status ?? error.statusCode\<close>, for an object.\<close>

definition nullish :: "jsval \<Rightarrow> jsval \<Rightarrow> jsval" where
  "nullish a b = (if a = JUndefined \<or> a = JNull then b else a)"

fun carriedStatus :: "failure \<Rightarrow> jsval option" where
  "carriedStatus (ErrorObj m s c) = Some (nullish s c)"
| "carriedStatus (PlainObj m s c) = Some (nullish s c)"
| "carriedStatus Primitive = None"

text \<open>
  \<^verbatim>\<open>error.message\<close>, read only under \<^verbatim>\<open>error instanceof Error\<close>: the \<^verbatim>\<open>message\<close>
  property of an object that is no \<^verbatim>\<open>Error\<close> is never read.
\<close>

fun errorMessage :: "failure \<Rightarrow> string option" where
  "errorMessage (ErrorObj m s c) = Some m"
| "errorMessage (PlainObj m s c) = None"
| "errorMessage Primitive = None"

definition isRateLimitError :: "failure \<Rightarrow> bool" where
  "isRateLimitError error =
     (if (case errorMessage error of
            Some m \<Rightarrow>
              (let msg = toLowerCase m
               in str_includes msg ''rate limit'' \<or> str_includes msg ''too many requests''
                  \<or> str_includes msg ''quota exceeded'')
          | None \<Rightarrow> False)
      then True
      else if (case carriedStatus error of Some status \<Rightarrow> status = JNum 429 | None \<Rightarrow> False)
      then True
      else False)"

definition isRetryableError :: "failure \<Rightarrow> bool" where
  "isRetryableError error =
     (if isRateLimitError error then True
      else if (case errorMessage error of
                 Some m \<Rightarrow>
                   (let msg = toLowerCase m
                    in str_includes msg ''network'' \<or> str_includes msg ''fetch''
                       \<or> str_includes msg ''timeout'' \<or> str_includes msg ''connection refused''
                       \<or> str_includes msg ''connection reset'' \<or> str_includes msg ''econnrefused''
                       \<or> str_includes msg ''econnreset'')
               | None \<Rightarrow> False)
      then True
      else if (case carriedStatus error of
                 Some (JNum status) \<Rightarrow> 500 \<le> status \<and> status < 600
               | _ \<Rightarrow> False)
      then True
      else False)"

section \<open>Content validator and delay policy\<close>

text \<open>
  What the engine shows or logs: the \<^verbatim>\<open>toastr\<close> notifications and the
  \<^verbatim>\<open>console.warn\<close> lines, with the values their texts are built from.
  \<^item> \<open>InfoAttempt a m\<close>: ``Auto-retry: Attempt a/m...''
  \<^item> \<open>WarningMissingContent\<close>: ``Response missing required content. Retrying...''
  \<^item> \<open>SuccessOnAttempt a\<close>: ``Auto-retry succeeded on attempt a''
  \<^item> \<open>WarningRateLimited t\<close>: ``Rate limited. Waiting ts...''
  \<^item> \<open>InfoTryingFallback m\<close>: ``Trying fallback model: m...''
  \<^item> \<open>InfoFallbackAttempt k a m\<close>: ``Auto-retry (fallback k): Attempt a/m...''
  \<^item> \<open>SuccessWithFallback m\<close>: ``Auto-retry succeeded with fallback model: m''
  \<^item> \<open>ErrorFailed\<close>: ``Auto-retry failed after all attempts''
  \<^item> \<open>WarningStreamingTimeout\<close>: ``Streaming timeout. Retrying...''
  \<^item> \<open>LogInvalidRegex p\<close>, \<open>LogAttemptFailed a x\<close>, \<open>LogFallbackAttemptFailed k a x\<close>,
    \<open>LogSkippingFallback i\<close>: the four \<^verbatim>\<open>console.warn\<close> lines.
\<close>

datatype notice =
    InfoAttempt nat nat
  | WarningMissingContent
  | SuccessOnAttempt nat
  | WarningRateLimited int
  | InfoTryingFallback string
  | InfoFallbackAttempt int nat nat
  | SuccessWithFallback string
  | ErrorFailed
  | WarningStreamingTimeout
  | LogInvalidRegex string
  | LogAttemptFailed nat failure
  | LogFallbackAttemptFailed int nat failure
  | LogSkippingFallback nat

text \<open>
  The regular expression engine is the platform's: \<open>rx p\<close> is \<^verbatim>\<open>new RegExp(p)\<close>, \<open>None\<close>
  when the constructor throws, else the \<^verbatim>\<open>test\<close> function of the compiled pattern.
  \<open>validateContent\<close> returns its boolean and the warning it logs, if any.
\<close>

type_synonym regexp = "string \<Rightarrow> (string \<Rightarrow> bool) option"

definition validateContent :: "regexp \<Rightarrow> string \<Rightarrow> Settings \<Rightarrow> bool \<times> notice list" where
  "validateContent rx content s =
     (if \<not> requiredContentEnabled s \<or> requiredContentPattern s = [] then (True, [])
      else if requiredContentIsRegex s then
        (case rx (requiredContentPattern s) of
           Some test \<Rightarrow> (test content, [])
         | None \<Rightarrow> (True, [LogInvalidRegex (requiredContentPattern s)]))
      else (str_includes content (requiredContentPattern s), []))"

text \<open>
  The condition of both loops,
  \<^verbatim>\<open>typeof result === 'string' && !validateContent(result, settings)\<close>.
\<close>

definition failsValidation :: "regexp \<Rightarrow> jsval \<Rightarrow> Settings \<Rightarrow> bool \<times> notice list" where
  "failsValidation rx result s =
     (case result of
        JStr content \<Rightarrow> (\<not> fst (validateContent rx content s), snd (validateContent rx content s))
      | _ \<Rightarrow> (False, []))"

text \<open>Every call of \<open>calculateDelay\<close> in the engine has \<open>attempt \<ge> 1\<close>.\<close>

definition calculateDelay :: "nat \<Rightarrow> Settings \<Rightarrow> bool \<Rightarrow> real" where
  "calculateDelay attempt s isRateLimit =
     (if isRateLimit then real_of_int (rateLimitDelayMs s)
      else real_of_int (retryDelayMs s) * retryDelayMultiplier s ^ (attempt - 1))"

definition shouldRetryGeneration :: "string \<Rightarrow> Settings \<Rightarrow> bool" where
  "shouldRetryGeneration generationId s =
     (if \<not> filterEnabled s then True
      else let isInList = generationId \<in> set (filterGenerationIds s)
           in if filterMode s = Whitelist then isInList else \<not> isInList)"

section \<open>Generation contexts and the registry\<close>

text \<open>
  The fields of a request that the engine reads or writes; the others pass through
  untouched. \<open>custom_api\<close> has the four fields of a fallback descriptor.
\<close>

record GenerateConfig =
  generation_id :: "string option"
  should_stream :: "bool option"
  custom_api :: "FallbackModel option"

record RetryContext =
  generationId :: string
  isStreaming :: bool
  config :: GenerateConfig
  aborted :: bool
  lastTokenTime :: int
  hasReceivedContent :: bool
  startTime :: int

record RetryResult =
  success :: bool
  result :: "jsval option"
  error :: "failure option"
  attempts :: nat
  usedFallback :: bool
  fallbackModel :: "FallbackModel option"

text \<open>
  \<open>activeContexts\<close> maps a generation id to a context object. One run is followed: its
  own context object is \<open>ThisRun\<close>, and \<open>OtherRun n\<close> are the context objects of other
  runs, whose fields are not followed.
\<close>

datatype ctxref = ThisRun | OtherRun nat

text \<open>The three ways the operation is invoked: \<^verbatim>\<open>fn()\<close>, and the two fallback closures.\<close>

datatype call = CallFn | CallGenerate GenerateConfig | CallGenerateRaw GenerateConfig

datatype settled = Fulfilled jsval | Failed failure

text \<open>
  What the run does to the outside, in order. \<open>Invoke i c\<close> is the call \<^verbatim>\<open>currentFn()\<close>
  made for backend \<open>i\<close> (\<open>- 1\<close> is the primary operation, as \<^verbatim>\<open>fallbackIndex\<close> has it),
  and \<open>Observed x\<close> notes how the promise awaited for that call settled.
\<close>

datatype effect =
    Invoke int call
  | Observed settled
  | Sleep real
  | StopGeneration string
  | Notify notice

record state =
  activeContexts :: "string \<rightharpoonup> ctxref"
  ctx :: RetryContext
  trace :: "effect list"

definition getActiveContext :: "string \<Rightarrow> (string \<rightharpoonup> ctxref) \<Rightarrow> ctxref option" where
  "getActiveContext g reg = reg g"

definition abortRetry :: "string \<Rightarrow> state \<Rightarrow> bool \<times> state" where
  "abortRetry g st =
     (case activeContexts st g of
        Some ThisRun \<Rightarrow> (True, st\<lparr>ctx := (ctx st)\<lparr>aborted := True\<rparr>\<rparr>)
      | Some (OtherRun n) \<Rightarrow> (True, st)
      | None \<Rightarrow> (False, st))"

definition updateTokenTime :: "string \<Rightarrow> int \<Rightarrow> state \<Rightarrow> state" where
  "updateTokenTime g now st =
     (case activeContexts st g of
        Some ThisRun \<Rightarrow> st\<lparr>ctx := (ctx st)\<lparr>lastTokenTime := now, hasReceivedContent := True\<rparr>\<rparr>
      | Some (OtherRun n) \<Rightarrow> st
      | None \<Rightarrow> st)"

section \<open>The environment of a run\<close>

text \<open>
  What happens while one invocation of the operation is awaited, in the order the event
  loop delivers it: the polling timer's callback comes due (with the clock's reading),
  \<^verbatim>\<open>updateTokenTime\<close> or \<^verbatim>\<open>abortRetry\<close> is called for some generation id, another run sets or
  deletes an entry of \<open>activeContexts\<close>, the promise of the operation is fulfilled or
  rejected. A script with neither \<open>Resolved\<close> nor \<open>Rejected\<close> is an operation that never
  settles. Events after the one that settles the attempt happen during the delay that
  follows it.
\<close>

datatype event =
    TimerTick int
  | TokenReceived string int
  | AbortRequested string
  | OtherRunSet string nat
  | OtherRunDelete string
  | Resolved jsval
  | Rejected failure

record script =
  startNow :: int
  events :: "event list"

text \<open>
  \<open>invoke n c\<close> is the script of call \<open>c\<close> when \<open>n\<close> invocations were made before it in
  this run; \<open>dateNow\<close> is the clock when the context is created.
\<close>

record env =
  regexp :: regexp
  invoke :: "nat \<Rightarrow> call \<Rightarrow> script"
  uuidv4 :: string
  dateNow :: int

text \<open>What an event does apart from the callbacks of the race itself.\<close>

fun background :: "event \<Rightarrow> state \<Rightarrow> state" where
  "background (AbortRequested g) st = snd (abortRetry g st)"
| "background (TokenReceived g now) st = updateTokenTime g now st"
| "background (OtherRunSet g n) st = st\<lparr>activeContexts := (activeContexts st)(g \<mapsto> OtherRun n)\<rparr>"
| "background (OtherRunDelete g) st = st\<lparr>activeContexts := (activeContexts st)(g := None)\<rparr>"
| "background (TimerTick now) st = st"
| "background (Resolved v) st = st"
| "background (Rejected x) st = st"

definition toastIf :: "bool \<Rightarrow> notice \<Rightarrow> effect list" where
  "toastIf b n = (if b then [Notify n] else [])"

definition emit :: "effect list \<Rightarrow> state \<Rightarrow> state" where
  "emit es st = st\<lparr>trace := trace st @ es\<rparr>"

section \<open>The timeout race\<close>

definition streamingTimeoutError :: failure where
  "streamingTimeoutError = ErrorObj ''Streaming timeout'' JUndefined JUndefined"

text \<open>
  \<open>raceEvents s resolved interval st evs\<close> runs the callbacks of one call of
  \<^verbatim>\<open>raceWithTimeouts\<close> over the events: \<open>resolved\<close> is its flag of that name and
  \<open>interval\<close> says that \<^verbatim>\<open>streamingCheckInterval\<close> is installed and not cleared. The
  result is how the returned promise settled (\<open>None\<close>: it has not, and the events are
  over), the state then, and the events left.
\<close>

fun raceEvents ::
  "Settings \<Rightarrow> bool \<Rightarrow> bool \<Rightarrow> state \<Rightarrow> event list \<Rightarrow> settled option \<times> state \<times> event list"
where
  "raceEvents s resolved interval st [] = (None, st, [])"
| "raceEvents s resolved interval st (TimerTick now # evs) =
     (if \<not> interval then raceEvents s resolved interval st evs
      else if resolved \<or> aborted (ctx st) then raceEvents s True False st evs
      else if hasReceivedContent (ctx st)
              \<and> now - lastTokenTime (ctx st) > streamingTimeoutMs s
      then (Some (Failed streamingTimeoutError),
            emit (StopGeneration (generationId (ctx st))
                  # toastIf (showRetryToast s) WarningStreamingTimeout) st,
            evs)
      else raceEvents s resolved interval st evs)"
| "raceEvents s resolved interval st (Resolved v # evs) =
     (if \<not> resolved then (Some (Fulfilled v), st, evs)
      else raceEvents s resolved interval st evs)"
| "raceEvents s resolved interval st (Rejected x # evs) =
     (if \<not> resolved then (Some (Failed x), st, evs)
      else raceEvents s resolved interval st evs)"
| "raceEvents s resolved interval st (e # evs) =
     raceEvents s resolved interval (background e st) evs"

definition raceWithTimeouts ::
  "Settings \<Rightarrow> state \<Rightarrow> event list \<Rightarrow> settled option \<times> state \<times> event list"
where
  "raceWithTimeouts s st evs = raceEvents s False (isStreaming (ctx st)) st evs"

text \<open>
  \<^verbatim>\<open>await sleep(delay)\<close>: the delay is noted, and the events left over from the attempt
  happen while the loop sleeps.
\<close>

definition handleRetryDelay :: "nat \<Rightarrow> Settings \<Rightarrow> bool \<Rightarrow> event list \<Rightarrow> state \<Rightarrow> state" where
  "handleRetryDelay attempt s isRateLimit evs st =
     fold background evs (emit [Sleep (calculateDelay attempt s isRateLimit)] st)"

section \<open>The retry loops\<close>

definition abortedError :: failure where
  "abortedError = ErrorObj ''Aborted by user'' JUndefined JUndefined"

definition contentValidationError :: failure where
  "contentValidationError = ErrorObj ''Content validation failed'' JUndefined JUndefined"

fun invocations :: "effect list \<Rightarrow> (int \<times> call) list" where
  "invocations [] = []"
| "invocations (Invoke i c # es) = (i, c) # invocations es"
| "invocations (_ # es) = invocations es"

text \<open>
  One pass through the body of a \<^verbatim>\<open>while\<close> loop ends in one of four ways: the next
  iteration (after \<^verbatim>\<open>continue\<close> or at the end of the body), \<^verbatim>\<open>break\<close>, \<^verbatim>\<open>return\<close>, or an
  \<^verbatim>\<open>await\<close> that never resumes. The first two carry the new value of \<^verbatim>\<open>lastError\<close>.
\<close>

datatype step =
    Continue "failure option"
  | Break "failure option"
  | Return RetryResult
  | Hang

text \<open>
  A loop is left with the values of \<^verbatim>\<open>attempt\<close> and \<^verbatim>\<open>lastError\<close>, or the function has
  returned, or it never will.
\<close>

datatype loop_end =
    Ended nat "failure option"
  | Returned RetryResult
  | NeverSettles

text \<open>
  The body of the primary loop of \<^verbatim>\<open>executeRetryLoop\<close>, entered with
  \<^verbatim>\<open>attempt\<close> = \<open>attempt0\<close>. The script of the call is the one the environment gives for
  the number of invocations made so far. \<^verbatim>\<open>Math.round\<close> of the delay in seconds is
  \<open>(ms + 500) div 1000\<close>.
\<close>

definition primaryIteration :: "env \<Rightarrow> Settings \<Rightarrow> nat \<Rightarrow> state \<Rightarrow> step \<times> state" where
  "primaryIteration e s attempt0 st =
     (if aborted (ctx st) then
        (Return \<lparr>success = False, result = None, error = Some abortedError,
                 attempts = attempt0, usedFallback = False, fallbackModel = None\<rparr>, st)
      else
        let attempt = attempt0 + 1;
            sc = invoke e (length (invocations (trace st))) CallFn;
            st1 = emit (toastIf (showRetryToast s \<and> 1 < attempt)
                          (InfoAttempt attempt (maxRetries s)) @ [Invoke (- 1) CallFn])
                    (st\<lparr>ctx := (ctx st)\<lparr>lastTokenTime := startNow sc,
                                         hasReceivedContent := False,
                                         startTime := startNow sc\<rparr>\<rparr>)
        in case raceWithTimeouts s st1 (events sc) of
             (None, st2, rest) \<Rightarrow> (Hang, st2)
           | (Some (Fulfilled v), st2, rest) \<Rightarrow>
               (let st3 = emit (Observed (Fulfilled v)
                                # map Notify (snd (failsValidation (regexp e) v s))) st2
                in if fst (failsValidation (regexp e) v s) then
                     (Continue (Some contentValidationError),
                      handleRetryDelay attempt s False rest
                        (emit (toastIf (showRetryToast s) WarningMissingContent) st3))
                   else
                     (Return \<lparr>success = True, result = Some v, error = None,
                              attempts = attempt, usedFallback = False, fallbackModel = None\<rparr>,
                      emit (toastIf (showSuccessToast s \<and> 1 < attempt)
                              (SuccessOnAttempt attempt)) st3))
           | (Some (Failed x), st2, rest) \<Rightarrow>
               (let st3 = emit [Observed (Failed x), Notify (LogAttemptFailed attempt x)] st2
                in if aborted (ctx st3) then
                     (Return \<lparr>success = False, result = None, error = Some abortedError,
                              attempts = attempt, usedFallback = False, fallbackModel = None\<rparr>,
                      st3)
                   else if \<not> isRetryableError x then (Break (Some x), st3)
                   else
                     let isRateLimit = isRateLimitError x;
                         currentMaxRetries =
                           (if isRateLimit then rateLimitMaxRetries s else maxRetries s)
                     in if currentMaxRetries \<le> attempt then (Break (Some x), st3)
                        else
                          (Continue (Some x),
                           handleRetryDelay attempt s isRateLimit rest
                             (emit (toastIf (isRateLimit \<and> showRetryToast s)
                                      (WarningRateLimited ((rateLimitDelayMs s + 500) div 1000)))
                                st3))))"

function primaryLoop ::
  "env \<Rightarrow> Settings \<Rightarrow> nat \<Rightarrow> failure option \<Rightarrow> state \<Rightarrow> loop_end \<times> state"
where
  "primaryLoop e s attempt lastError st =
     (if attempt < maxRetries s then
        (case primaryIteration e s attempt st of
           (Continue err, st') \<Rightarrow> primaryLoop e s (attempt + 1) err st'
         | (Break err, st') \<Rightarrow> (Ended (attempt + 1) err, st')
         | (Return r, st') \<Rightarrow> (Returned r, st')
         | (Hang, st') \<Rightarrow> (NeverSettles, st'))
      else (Ended attempt lastError, st))"
  by pat_completeness auto
termination
  by (relation "measure (\<lambda>(e, s, attempt, lastError, st). maxRetries s - attempt)") auto

text \<open>
  The body of the inner loop of fallback \<open>i\<close>, whose descriptor is \<open>fm\<close> and whose
  operation is the call \<open>c\<close>. It differs from the primary one in what it returns and
  shows, and in its budget: \<^verbatim>\<open>maxRetries\<close> for every retryable failure.
\<close>

definition fallbackIteration ::
  "env \<Rightarrow> Settings \<Rightarrow> nat \<Rightarrow> FallbackModel \<Rightarrow> call \<Rightarrow> nat \<Rightarrow> state \<Rightarrow> step \<times> state"
where
  "fallbackIteration e s i fm c attempt0 st =
     (if aborted (ctx st) then
        (Return \<lparr>success = False, result = None, error = Some abortedError,
                 attempts = attempt0, usedFallback = True, fallbackModel = Some fm\<rparr>, st)
      else
        let attempt = attempt0 + 1;
            sc = invoke e (length (invocations (trace st))) c;
            st1 = emit (toastIf (showRetryToast s \<and> 1 < attempt)
                          (InfoFallbackAttempt (int i + 1) attempt (maxRetries s))
                        @ [Invoke (int i) c])
                    (st\<lparr>ctx := (ctx st)\<lparr>lastTokenTime := startNow sc,
                                         hasReceivedContent := False,
                                         startTime := startNow sc\<rparr>\<rparr>)
        in case raceWithTimeouts s st1 (events sc) of
             (None, st2, rest) \<Rightarrow> (Hang, st2)
           | (Some (Fulfilled v), st2, rest) \<Rightarrow>
               (let st3 = emit (Observed (Fulfilled v)
                                # map Notify (snd (failsValidation (regexp e) v s))) st2
                in if fst (failsValidation (regexp e) v s) then
                     (Continue (Some contentValidationError),
                      handleRetryDelay attempt s False rest
                        (emit (toastIf (showRetryToast s) WarningMissingContent) st3))
                   else
                     (Return \<lparr>success = True, result = Some v, error = None,
                              attempts = attempt, usedFallback = True,
                              fallbackModel = Some fm\<rparr>,
                      emit (toastIf (showSuccessToast s) (SuccessWithFallback (model fm))) st3))
           | (Some (Failed x), st2, rest) \<Rightarrow>
               (let st3 = emit [Observed (Failed x),
                                Notify (LogFallbackAttemptFailed (int i + 1) attempt x)] st2
                in if aborted (ctx st3) then
                     (Return \<lparr>success = False, result = None, error = Some abortedError,
                              attempts = attempt, usedFallback = True,
                              fallbackModel = Some fm\<rparr>,
                      st3)
                   else if \<not> isRetryableError x then (Break (Some x), st3)
                   else if maxRetries s \<le> attempt then (Break (Some x), st3)
                   else
                     (Continue (Some x),
                      handleRetryDelay attempt s (isRateLimitError x) rest st3)))"

function fallbackLoop ::
  "env \<Rightarrow> Settings \<Rightarrow> nat \<Rightarrow> FallbackModel \<Rightarrow> call \<Rightarrow> nat \<Rightarrow> failure option \<Rightarrow> state
   \<Rightarrow> loop_end \<times> state"
where
  "fallbackLoop e s i fm c attempt lastError st =
     (if attempt < maxRetries s then
        (case fallbackIteration e s i fm c attempt st of
           (Continue err, st') \<Rightarrow> fallbackLoop e s i fm c (attempt + 1) err st'
         | (Break err, st') \<Rightarrow> (Ended (attempt + 1) err, st')
         | (Return r, st') \<Rightarrow> (Returned r, st')
         | (Hang, st') \<Rightarrow> (NeverSettles, st'))
      else (Ended attempt lastError, st))"
  by pat_completeness auto
termination
  by (relation "measure (\<lambda>(e, s, i, fm, c, attempt, lastError, st). maxRetries s - attempt)")
     auto

text \<open>
  The \<^verbatim>\<open>for\<close> loop over \<^verbatim>\<open>settings.fallbackModels\<close>, at index \<open>i\<close> with the descriptors
  \<open>fms\<close> still to come. It ends past the last descriptor with the values of the local
  variables \<^verbatim>\<open>attempt\<close>, \<^verbatim>\<open>lastError\<close>, \<^verbatim>\<open>usedFallback\<close> and \<^verbatim>\<open>currentFallbackModel\<close>, or
  inside a loop that returned or hangs.
\<close>

datatype cascade_end =
    FellThrough nat "failure option" bool "FallbackModel option"
  | Settled "RetryResult option"

fun fallbackCascade ::
  "env \<Rightarrow> Settings \<Rightarrow> bool \<Rightarrow> nat \<Rightarrow> FallbackModel list \<Rightarrow> nat \<Rightarrow> failure option
   \<Rightarrow> GenerateConfig \<Rightarrow> bool \<Rightarrow> FallbackModel option \<Rightarrow> state \<Rightarrow> cascade_end \<times> state"
where
  "fallbackCascade e s isRaw i [] attempt lastError currentConfig used current st =
     (FellThrough attempt lastError used current, st)"
| "fallbackCascade e s isRaw i (fm # fms) attempt lastError currentConfig used current st =
     (if apiurl fm = [] \<or> model fm = [] then
        fallbackCascade e s isRaw (i + 1) fms attempt lastError currentConfig used current
          (emit [Notify (LogSkippingFallback i)] st)
      else
        let fallbackConfig =
              currentConfig\<lparr>custom_api :=
                Some \<lparr>apiurl = apiurl fm, key = key fm, model = model fm, source = source fm\<rparr>\<rparr>;
            c = (if isRaw then CallGenerateRaw fallbackConfig else CallGenerate fallbackConfig)
        in case fallbackLoop e s i fm c 0 lastError
                  (emit (toastIf (showRetryToast s) (InfoTryingFallback (model fm))) st) of
             (Ended attempt' lastError', st') \<Rightarrow>
               fallbackCascade e s isRaw (i + 1) fms attempt' lastError' fallbackConfig True
                 (Some fm) st'
           | (Returned r, st') \<Rightarrow> (Settled (Some r), st')
           | (NeverSettles, st') \<Rightarrow> (Settled None, st'))"

definition executeRetryLoop ::
  "env \<Rightarrow> Settings \<Rightarrow> GenerateConfig \<Rightarrow> bool \<Rightarrow> state \<Rightarrow> RetryResult option \<times> state"
where
  "executeRetryLoop e s cfg isRaw st =
     (case primaryLoop e s 0 None st of
        (Returned r, st1) \<Rightarrow> (Some r, st1)
      | (NeverSettles, st1) \<Rightarrow> (None, st1)
      | (Ended attempt lastError, st1) \<Rightarrow>
          (case (if fallbackModelsEnabled s \<and> 0 < length (fallbackModels s)
                 then fallbackCascade e s isRaw 0 (fallbackModels s) attempt lastError cfg
                        False None st1
                 else (FellThrough attempt lastError False None, st1)) of
             (Settled r, st2) \<Rightarrow> (r, st2)
           | (FellThrough attempt' lastError' used current, st2) \<Rightarrow>
               (Some \<lparr>success = False, result = None, error = lastError',
                      attempts = attempt', usedFallback = used, fallbackModel = current\<rparr>,
                emit (toastIf (showFailureToast s) ErrorFailed) st2)))"

section \<open>The entry point\<close>

text \<open>
  \<^verbatim>\<open>await fn()\<close> of the unretried path: the first settlement of the operation. This run
  has no context then, so the calls of \<^verbatim>\<open>abortRetry\<close> and \<^verbatim>\<open>updateTokenTime\<close> reach at most
  other runs' contexts.
\<close>

fun awaitFn ::
  "event list \<Rightarrow> (string \<rightharpoonup> ctxref) \<Rightarrow> settled option \<times> (string \<rightharpoonup> ctxref)"
where
  "awaitFn [] reg = (None, reg)"
| "awaitFn (Resolved v # evs) reg = (Some (Fulfilled v), reg)"
| "awaitFn (Rejected x # evs) reg = (Some (Failed x), reg)"
| "awaitFn (OtherRunSet g n # evs) reg = awaitFn evs (reg(g \<mapsto> OtherRun n))"
| "awaitFn (OtherRunDelete g # evs) reg = awaitFn evs (reg(g := None))"
| "awaitFn (_ # evs) reg = awaitFn evs reg"

text \<open>\<^verbatim>\<open>config.generation_id ?? uuidv4()\<close> and \<^verbatim>\<open>config.should_stream ?? false\<close>.\<close>

definition generationIdOf :: "env \<Rightarrow> GenerateConfig \<Rightarrow> string" where
  "generationIdOf e cfg = (case generation_id cfg of Some g \<Rightarrow> g | None \<Rightarrow> uuidv4 e)"

definition isStreamingOf :: "GenerateConfig \<Rightarrow> bool" where
  "isStreamingOf cfg = (case should_stream cfg of Some b \<Rightarrow> b | None \<Rightarrow> False)"

text \<open>
  \<open>others\<close> is \<open>activeContexts\<close> when the run starts: the contexts of the runs in
  flight. The result is what the returned promise settles with (\<open>None\<close>: it never
  settles), \<open>activeContexts\<close> and the effects at that point.
\<close>

definition executeWithRetry ::
  "env \<Rightarrow> Settings \<Rightarrow> GenerateConfig \<Rightarrow> bool \<Rightarrow> (string \<rightharpoonup> nat)
   \<Rightarrow> RetryResult option \<times> (string \<rightharpoonup> ctxref) \<times> effect list"
where
  "executeWithRetry e s cfg isRaw others =
     (let gid = generationIdOf e cfg;
          streaming = isStreamingOf cfg;
          reg = map_option OtherRun \<circ> others
      in if \<not> shouldRetryGeneration gid s then
           (case awaitFn (events (invoke e 0 CallFn)) reg of
              (Some (Fulfilled v), reg') \<Rightarrow>
                (Some \<lparr>success = True, result = Some v, error = None, attempts = 1,
                       usedFallback = False, fallbackModel = None\<rparr>,
                 reg', [Invoke (- 1) CallFn, Observed (Fulfilled v)])
            | (Some (Failed x), reg') \<Rightarrow>
                (Some \<lparr>success = False, result = None, error = Some x, attempts = 1,
                       usedFallback = False, fallbackModel = None\<rparr>,
                 reg', [Invoke (- 1) CallFn, Observed (Failed x)])
            | (None, reg') \<Rightarrow> (None, reg', [Invoke (- 1) CallFn]))
         else
           let st = \<lparr>activeContexts = reg(gid \<mapsto> ThisRun),
                     ctx = \<lparr>generationId = gid, isStreaming = streaming, config = cfg,
                            aborted = False, lastTokenTime = dateNow e,
                            hasReceivedContent = False, startTime = dateNow e\<rparr>,
                     trace = []\<rparr>
           in case executeRetryLoop e s cfg isRaw st of
                (Some r, st') \<Rightarrow> (Some r, (activeContexts st')(gid := None), trace st')
              | (None, st') \<Rightarrow> (None, activeContexts st', trace st'))"

section \<open>Notions used in the statements\<close>

text \<open>
  A message contains a keyword, whatever the case of its letters: some contiguous part
  of the message is the keyword once lowered.
\<close>

definition containsIgnoringCase :: "string \<Rightarrow> string \<Rightarrow> bool" where
  "containsIgnoringCase m k = (\<exists>ps u ss. m = ps @ u @ ss \<and> toLowerCase u = k)"

text \<open>
  The properties of a thrown value as JavaScript reads them: an absent property, and
  any property of a value that is no object, is \<open>JUndefined\<close>.
\<close>

fun isErrorInstance :: "failure \<Rightarrow> bool" where
  "isErrorInstance (ErrorObj m s c) = True"
| "isErrorInstance (PlainObj m s c) = False"
| "isErrorInstance Primitive = False"

fun messageProperty :: "failure \<Rightarrow> jsval" where
  "messageProperty (ErrorObj m s c) = JStr m"
| "messageProperty (PlainObj m s c) = m"
| "messageProperty Primitive = JUndefined"

fun statusProperty :: "failure \<Rightarrow> jsval" where
  "statusProperty (ErrorObj m s c) = s"
| "statusProperty (PlainObj m s c) = s"
| "statusProperty Primitive = JUndefined"

fun statusCodeProperty :: "failure \<Rightarrow> jsval" where
  "statusCodeProperty (ErrorObj m s c) = c"
| "statusCodeProperty (PlainObj m s c) = c"
| "statusCodeProperty Primitive = JUndefined"

text \<open>
  The specification's conditions, word for word: the failure carries the number \<open>n\<close> as
  its status or as its status-code; its message contains one of the keywords.
\<close>

definition carriesStatus :: "failure \<Rightarrow> real \<Rightarrow> bool" where
  "carriesStatus f n = (statusProperty f = JNum n \<or> statusCodeProperty f = JNum n)"

definition messageContains :: "failure \<Rightarrow> string list \<Rightarrow> bool" where
  "messageContains f ks =
     (case messageProperty f of
        JStr m \<Rightarrow> (\<exists>k \<in> set ks. containsIgnoringCase m k)
      | _ \<Rightarrow> False)"

text \<open>
  The narrower conditions: the effective status is the status, and the status-code only
  when the status is \<^verbatim>\<open>null\<close> or \<^verbatim>\<open>undefined\<close>; the message counts only when the
  failure is an instance of \<^verbatim>\<open>Error\<close>.
\<close>

definition effectiveStatus :: "failure \<Rightarrow> jsval" where
  "effectiveStatus f =
     (if statusProperty f = JUndefined \<or> statusProperty f = JNull
      then statusCodeProperty f else statusProperty f)"

definition errorMentions :: "failure \<Rightarrow> string list \<Rightarrow> bool" where
  "errorMentions f ks = (isErrorInstance f \<and> messageContains f ks)"

definition rateLimitKeywords :: "string list" where
  "rateLimitKeywords = [''rate limit'', ''too many requests'', ''quota exceeded'']"

definition networkKeywords :: "string list" where
  "networkKeywords = [''network'', ''fetch'', ''timeout'', ''connection refused'',
     ''connection reset'', ''econnrefused'', ''econnreset'']"

text \<open>How the operation itself settles: the first settlement among the events.\<close>

fun firstSettlement :: "event list \<Rightarrow> settled option" where
  "firstSettlement [] = None"
| "firstSettlement (Resolved v # evs) = Some (Fulfilled v)"
| "firstSettlement (Rejected x # evs) = Some (Failed x)"
| "firstSettlement (_ # evs) = firstSettlement evs"

fun isAbort :: "event \<Rightarrow> bool" where
  "isAbort (AbortRequested g) = True"
| "isAbort _ = False"

text \<open>
  Awaiting the operation with no timer at all: the events before its settlement do what
  they do in the background, and the settlement is passed on.
\<close>

fun awaitOperation :: "state \<Rightarrow> event list \<Rightarrow> settled option \<times> state \<times> event list" where
  "awaitOperation st [] = (None, st, [])"
| "awaitOperation st (Resolved v # evs) = (Some (Fulfilled v), st, evs)"
| "awaitOperation st (Rejected x # evs) = (Some (Failed x), st, evs)"
| "awaitOperation st (ev # evs) = awaitOperation (background ev st) evs"

text \<open>
  The settlements the loops observed, in order, and the failure cause each stands for:
  a rejection is its own cause, and a fulfilled attempt that did not end the run failed
  the content validation.
\<close>

fun observations :: "effect list \<Rightarrow> settled list" where
  "observations [] = []"
| "observations (Observed x # es) = x # observations es"
| "observations (_ # es) = observations es"

fun causeOf :: "settled \<Rightarrow> failure" where
  "causeOf (Failed x) = x"
| "causeOf (Fulfilled v) = contentValidationError"

definition lastFailure :: "effect list \<Rightarrow> failure option" where
  "lastFailure tr =
     (case observations tr of [] \<Rightarrow> None | x # xs \<Rightarrow> Some (causeOf (last (x # xs))))"

text \<open>The number of invocations made for the backend that was invoked last.\<close>

definition attemptsOfLast :: "effect list \<Rightarrow> nat" where
  "attemptsOfLast tr =
     (case invocations tr of
        [] \<Rightarrow> 0
      | x # xs \<Rightarrow> length (filter (\<lambda>y. fst y = fst (last (x # xs))) (x # xs)))"

text \<open>A fallback descriptor is usable when its endpoint and its model are not empty.\<close>

definition usable :: "FallbackModel \<Rightarrow> bool" where
  "usable fm = (apiurl fm \<noteq> [] \<and> model fm \<noteq> [])"

definition lastUsable :: "FallbackModel list \<Rightarrow> FallbackModel option" where
  "lastUsable fms = (case filter usable fms of [] \<Rightarrow> None | x # xs \<Rightarrow> Some (last (x # xs)))"

text \<open>
  The events of one invocation of an operation that fails with an ordinary retryable
  error: it rejects with a failure that is retryable and not rate-limited, and
  \<^verbatim>\<open>abortRetry\<close> is not called meanwhile.
\<close>

definition failsOrdinarily :: "event list \<Rightarrow> bool" where
  "failsOrdinarily evs =
     (list_all (\<lambda>ev. \<not> isAbort ev) evs
      \<and> (case firstSettlement evs of
            Some (Failed x) \<Rightarrow> isRetryableError x \<and> \<not> isRateLimitError x
          | _ \<Rightarrow> False))"

text \<open>The same for an operation that fails rate-limited.\<close>

definition failsRateLimited :: "event list \<Rightarrow> bool" where
  "failsRateLimited evs =
     (list_all (\<lambda>ev. \<not> isAbort ev) evs
      \<and> (case firstSettlement evs of
            Some (Failed x) \<Rightarrow> isRateLimitError x
          | _ \<Rightarrow> False))"

text \<open>The call that the cascade makes for the descriptor \<open>fm\<close>, from the request \<open>cfg\<close>.\<close>

definition fallbackCall :: "bool \<Rightarrow> GenerateConfig \<Rightarrow> FallbackModel \<Rightarrow> call" where
  "fallbackCall isRaw cfg fm =
     (let fallbackConfig =
            cfg\<lparr>custom_api :=
                  Some \<lparr>apiurl = apiurl fm, key = key fm, model = model fm, source = source fm\<rparr>\<rparr>
      in if isRaw then CallGenerateRaw fallbackConfig else CallGenerate fallbackConfig)"


text \<open>No entry of the registry holds the followed run's context, except perhaps the one for \<open>g\<close>.\<close>

definition heldOnlyAt :: "string \<Rightarrow> (string \<rightharpoonup> ctxref) \<Rightarrow> bool" where
  "heldOnlyAt g reg = (\<forall>g'. reg g' = Some ThisRun \<longrightarrow> g' = g)"

section \<open>Sample inputs\<close>

definition sampleConfig :: "bool \<Rightarrow> GenerateConfig" where
  "sampleConfig streaming =
     \<lparr>generation_id = Some ''g'', should_stream = Some streaming, custom_api = None\<rparr>"

definition sampleState :: "bool \<Rightarrow> state" where
  "sampleState streaming =
     \<lparr>activeContexts = [''g'' \<mapsto> ThisRun],
      ctx = \<lparr>generationId = ''g'', isStreaming = streaming, config = sampleConfig streaming,
             aborted = False, lastTokenTime = 0, hasReceivedContent = False, startTime = 0\<rparr>,
      trace = []\<rparr>"

definition networkError :: failure where
  "networkError = ErrorObj ''Network error'' JUndefined JUndefined"

definition tooManyRequests :: failure where
  "tooManyRequests = PlainObj JUndefined (JNum 429) JUndefined"

definition sampleFallback :: FallbackModel where
  "sampleFallback =
     \<lparr>apiurl = ''http://fallback1.test'', key = ''key1'', model = ''model1'', source = ''openai''\<rparr>"

text \<open>An operation that rejects with \<open>x\<close> at once, on every call.\<close>

definition alwaysRejects :: "failure \<Rightarrow> env" where
  "alwaysRejects x =
     \<lparr>regexp = (\<lambda>p. None), invoke = (\<lambda>n c. \<lparr>startNow = 0, events = [Rejected x]\<rparr>),
      uuidv4 = ''uuid'', dateNow = 0\<rparr>"

text \<open>
  On every call, \<^verbatim>\<open>abortRetry('g')\<close> is called while the operation is in flight, the
  polling timer comes due one second after the start, and \<open>evs\<close> follow.
\<close>

definition abortThenTick :: "event list \<Rightarrow> env" where
  "abortThenTick evs =
     \<lparr>regexp = (\<lambda>p. None),
      invoke = (\<lambda>n c. \<lparr>startNow = 0, events = AbortRequested ''g'' # TimerTick 1000 # evs\<rparr>),
      uuidv4 = ''uuid'', dateNow = 0\<rparr>"

text \<open>Every call of the operation goes through the events \<open>evs\<close>.\<close>

definition scripted :: "event list \<Rightarrow> env" where
  "scripted evs =
     \<lparr>regexp = (\<lambda>p. None), invoke = (\<lambda>n c. \<lparr>startNow = 0, events = evs\<rparr>),
      uuidv4 = ''uuid'', dateNow = 0\<rparr>"

definition notFound :: failure where
  "notFound = PlainObj JUndefined (JNum 404) JUndefined"

definition unusableFallback :: FallbackModel where
  "unusableFallback =
     \<lparr>apiurl = ''http://fallback0.test'', key = ''key0'', model = [], source = ''openai''\<rparr>"


section \<open>Properties of the string helpers\<close>

lemma str_includes_iff: "str_includes s p \<longleftrightarrow> (\<exists>ps ss. s = ps @ p @ ss)"
proof (induction s)
  case Nil
  then show ?case by auto
next
  case (Cons c cs)
  show ?case
  proof
    assume "str_includes (c # cs) p"
    then consider "take (length p) (c # cs) = p" | "str_includes cs p" by auto
    then show "\<exists>ps ss. c # cs = ps @ p @ ss"
    proof cases
      case 1
      then have "c # cs = [] @ p @ drop (length p) (c # cs)"
        by (metis append_Nil append_take_drop_id)
      then show ?thesis by blast
    next
      case 2
      with Cons obtain ps ss where "cs = ps @ p @ ss" by blast
      then have "c # cs = (c # ps) @ p @ ss" by simp
      then show ?thesis by blast
    qed
  next
    assume "\<exists>ps ss. c # cs = ps @ p @ ss"
    then obtain ps ss where eq: "c # cs = ps @ p @ ss" by blast
    show "str_includes (c # cs) p"
    proof (cases ps)
      case Nil
      with eq have "take (length p) (c # cs) = p" by simp
      then show ?thesis by simp
    next
      case (Cons q qs)
      with eq have "cs = qs @ p @ ss" by simp
      with Cons.IH have "str_includes cs p" by blast
      then show ?thesis by simp
    qed
  qed
qed

lemma containsIgnoringCase_code:
  "containsIgnoringCase m k \<longleftrightarrow> str_includes (toLowerCase m) k"
proof
  assume "containsIgnoringCase m k"
  then obtain ps u ss where "m = ps @ u @ ss" "toLowerCase u = k"
    by (auto simp: containsIgnoringCase_def)
  then have "toLowerCase m = toLowerCase ps @ k @ toLowerCase ss"
    by (auto simp: toLowerCase_def)
  then show "str_includes (toLowerCase m) k"
    unfolding str_includes_iff by blast
next
  assume "str_includes (toLowerCase m) k"
  then obtain xs zs where "map lowerChar m = xs @ k @ zs"
    unfolding str_includes_iff toLowerCase_def by blast
  then have "\<exists>ps r. m = ps @ r \<and> xs = map lowerChar ps \<and> k @ zs = map lowerChar r"
    by (simp only: map_eq_append_conv)
  then obtain ps r where m: "m = ps @ r" and r: "map lowerChar r = k @ zs"
    by auto
  from r have "\<exists>u ss. r = u @ ss \<and> k = map lowerChar u \<and> zs = map lowerChar ss"
    by (simp only: map_eq_append_conv)
  then obtain u ss where "r = u @ ss" "map lowerChar u = k"
    by auto
  with m show "containsIgnoringCase m k"
    unfolding containsIgnoringCase_def toLowerCase_def by blast
qed

section \<open>Properties of the error classifier\<close>

lemma effectiveStatus_carried:
  "carriedStatus f = Some v \<longleftrightarrow> f \<noteq> Primitive \<and> effectiveStatus f = v"
  by (cases f) (auto simp: effectiveStatus_def nullish_def)

lemma errorMentions_message:
  "errorMentions f ks
     \<longleftrightarrow> (\<exists>m. errorMessage f = Some m \<and> (\<exists>k \<in> set ks. str_includes (toLowerCase m) k))"
  by (cases f) (simp_all add: errorMentions_def messageContains_def containsIgnoringCase_code)

lemma isRateLimitError_iff:
  "isRateLimitError f \<longleftrightarrow> effectiveStatus f = JNum 429 \<or> errorMentions f rateLimitKeywords"
  by (cases f)
    (auto simp: isRateLimitError_def errorMentions_message rateLimitKeywords_def
      effectiveStatus_def nullish_def Let_def)

lemma isRetryableError_iff:
  "isRetryableError f \<longleftrightarrow>
     isRateLimitError f
     \<or> (\<exists>n. effectiveStatus f = JNum n \<and> 500 \<le> n \<and> n < 600)
     \<or> errorMentions f networkKeywords"
  by (cases f)
    (auto simp: isRetryableError_def errorMentions_message networkKeywords_def
      effectiveStatus_def nullish_def Let_def split: jsval.splits)

text \<open>
  Claim C5, as stated, fails. The classifier reads \<^verbatim>\<open>status ?? statusCode\<close>, so a
  status-code is hidden by any status that is neither \<^verbatim>\<open>null\<close> nor \<^verbatim>\<open>undefined\<close>, and it
  reads the message of an instance of \<^verbatim>\<open>Error\<close> only. The object with status
  \<^verbatim>\<open>'error'\<close> and status-code 429 carries the number 429 and is neither rate-limited nor
  retryable; the object that is no \<^verbatim>\<open>Error\<close> and whose message is ``rate limit
  exceeded'' is not rate-limited; the object with status \<^verbatim>\<open>'error'\<close> and status-code
  503, and the object that is no \<^verbatim>\<open>Error\<close> and whose message is ``Network error'', are not
  retryable.
\<close>

theorem classifier_counterexample:
  "carriesStatus (PlainObj JUndefined (JStr ''error'') (JNum 429)) 429
   \<and> \<not> isRateLimitError (PlainObj JUndefined (JStr ''error'') (JNum 429))
   \<and> \<not> isRetryableError (PlainObj JUndefined (JStr ''error'') (JNum 429))
   \<and> messageContains (PlainObj (JStr ''rate limit exceeded'') JUndefined JUndefined)
         rateLimitKeywords
   \<and> \<not> isRateLimitError (PlainObj (JStr ''rate limit exceeded'') JUndefined JUndefined)
   \<and> carriesStatus (PlainObj JUndefined (JStr ''error'') (JNum 503)) 503
   \<and> \<not> isRetryableError (PlainObj JUndefined (JStr ''error'') (JNum 503))
   \<and> messageContains (PlainObj (JStr ''Network error'') JUndefined JUndefined) networkKeywords
   \<and> \<not> isRetryableError (PlainObj (JStr ''Network error'') JUndefined JUndefined)"
proof -
  have c1: "carriesStatus (PlainObj JUndefined (JStr ''error'') (JNum 429)) 429"
    and c2: "carriesStatus (PlainObj JUndefined (JStr ''error'') (JNum 503)) 503"
    by (simp_all add: carriesStatus_def)
  have m1: "messageContains (PlainObj (JStr ''rate limit exceeded'') JUndefined JUndefined)
              rateLimitKeywords"
    by (simp add: messageContains_def rateLimitKeywords_def containsIgnoringCase_code
        toLowerCase_def lowerChar_def)
  have m2: "messageContains (PlainObj (JStr ''Network error'') JUndefined JUndefined)
              networkKeywords"
    by (simp add: messageContains_def networkKeywords_def containsIgnoringCase_code
        toLowerCase_def lowerChar_def)
  have n1: "\<not> isRateLimitError (PlainObj JUndefined (JStr ''error'') (JNum 429))"
    and n2: "\<not> isRetryableError (PlainObj JUndefined (JStr ''error'') (JNum 429))"
    and n3: "\<not> isRateLimitError (PlainObj (JStr ''rate limit exceeded'') JUndefined JUndefined)"
    and n4: "\<not> isRetryableError (PlainObj JUndefined (JStr ''error'') (JNum 503))"
    and n5: "\<not> isRetryableError (PlainObj (JStr ''Network error'') JUndefined JUndefined)"
    by (simp_all add: isRetryableError_def isRateLimitError_def nullish_def)
  show ?thesis
    using c1 c2 m1 m2 n1 n2 n3 n4 n5 by simp
qed

text \<open>
  Claim C5, amended. A failure is rate-limited exactly when its effective status (its
  status, or its status-code when the status is \<^verbatim>\<open>null\<close> or \<^verbatim>\<open>undefined\<close>) is the number
  429, or it is an instance of \<^verbatim>\<open>Error\<close> whose message contains ``rate limit'', ``too
  many requests'' or ``quota exceeded'' in any case. It is retryable exactly when it is
  rate-limited, or its effective status is a number from 500 up to, not including, 600,
  or it is an instance of \<^verbatim>\<open>Error\<close> whose message contains a network or timeout
  keyword in any case. So a failure whose effective status is 400, 401, 403 or 404 and
  that is no \<^verbatim>\<open>Error\<close> with such a message is not retryable, and a rate-limited failure
  is retryable.
\<close>

theorem classifier_by_effective_status:
  "(isRateLimitError f
      \<longleftrightarrow> effectiveStatus f = JNum 429 \<or> errorMentions f rateLimitKeywords)
   \<and> (isRetryableError f
        \<longleftrightarrow> isRateLimitError f
            \<or> (\<exists>n. effectiveStatus f = JNum n \<and> 500 \<le> n \<and> n < 600)
            \<or> errorMentions f networkKeywords)
   \<and> ((\<exists>n \<in> {400, 401, 403, 404}. effectiveStatus f = JNum n)
        \<and> \<not> errorMentions f rateLimitKeywords \<and> \<not> errorMentions f networkKeywords
      \<longrightarrow> \<not> isRetryableError f)
   \<and> (isRateLimitError f \<longrightarrow> isRetryableError f)"
proof -
  have four: "\<not> isRetryableError f"
    if "\<exists>n \<in> {400, 401, 403, 404}. effectiveStatus f = JNum n"
      and "\<not> errorMentions f rateLimitKeywords" and "\<not> errorMentions f networkKeywords"
    using that unfolding isRetryableError_iff isRateLimitError_iff by auto
  show ?thesis
    using four isRateLimitError_iff [of f] isRetryableError_iff [of f] by blast
qed

theorem classifier_by_effective_status_witness:
  "effectiveStatus (PlainObj JUndefined (JNum 429) JUndefined) = JNum 429
   \<and> isRateLimitError (PlainObj JUndefined (JNum 429) JUndefined)
   \<and> effectiveStatus (PlainObj JUndefined JNull (JNum 429)) = JNum 429
   \<and> isRateLimitError (PlainObj JUndefined JNull (JNum 429))
   \<and> errorMentions (ErrorObj ''Rate Limit exceeded'' JUndefined JUndefined) rateLimitKeywords
   \<and> isRateLimitError (ErrorObj ''Rate Limit exceeded'' JUndefined JUndefined)
   \<and> isRetryableError (ErrorObj ''Rate Limit exceeded'' JUndefined JUndefined)
   \<and> effectiveStatus (PlainObj JUndefined JUndefined (JNum 503)) = JNum 503
   \<and> isRetryableError (PlainObj JUndefined JUndefined (JNum 503))
   \<and> errorMentions (ErrorObj ''Connection Refused'' JUndefined JUndefined) networkKeywords
   \<and> isRetryableError (ErrorObj ''Connection Refused'' JUndefined JUndefined)
   \<and> effectiveStatus (ErrorObj ''Not Found'' (JNum 404) JUndefined) = JNum 404
   \<and> \<not> errorMentions (ErrorObj ''Not Found'' (JNum 404) JUndefined) rateLimitKeywords
   \<and> \<not> errorMentions (ErrorObj ''Not Found'' (JNum 404) JUndefined) networkKeywords
   \<and> \<not> isRetryableError (ErrorObj ''Not Found'' (JNum 404) JUndefined)
   \<and> effectiveStatus (PlainObj JUndefined (JStr ''error'') (JNum 429)) = JStr ''error''
   \<and> \<not> errorMentions (PlainObj JUndefined (JStr ''error'') (JNum 429)) rateLimitKeywords
   \<and> \<not> isRateLimitError (PlainObj JUndefined (JStr ''error'') (JNum 429))"
proof -
  have h1: "effectiveStatus (PlainObj JUndefined (JNum 429) JUndefined) = JNum 429"
    and h2: "effectiveStatus (PlainObj JUndefined JNull (JNum 429)) = JNum 429"
    and h3: "effectiveStatus (PlainObj JUndefined JUndefined (JNum 503)) = JNum 503"
    and h4: "effectiveStatus (ErrorObj ''Not Found'' (JNum 404) JUndefined) = JNum 404"
    and h5: "effectiveStatus (PlainObj JUndefined (JStr ''error'') (JNum 429)) = JStr ''error''"
    by (simp_all add: effectiveStatus_def)
  have e1: "errorMentions (ErrorObj ''Rate Limit exceeded'' JUndefined JUndefined)
              rateLimitKeywords"
    by (simp add: errorMentions_def messageContains_def rateLimitKeywords_def
        containsIgnoringCase_code toLowerCase_def lowerChar_def)
  have e2: "errorMentions (ErrorObj ''Connection Refused'' JUndefined JUndefined)
              networkKeywords"
    by (simp add: errorMentions_def messageContains_def networkKeywords_def
        containsIgnoringCase_code toLowerCase_def lowerChar_def)
  have e3: "\<not> errorMentions (ErrorObj ''Not Found'' (JNum 404) JUndefined) rateLimitKeywords"
    by (simp add: errorMentions_def messageContains_def rateLimitKeywords_def
        containsIgnoringCase_code toLowerCase_def lowerChar_def)
  have e4: "\<not> errorMentions (ErrorObj ''Not Found'' (JNum 404) JUndefined) networkKeywords"
    by (simp add: errorMentions_def messageContains_def networkKeywords_def
        containsIgnoringCase_code toLowerCase_def lowerChar_def)
  have e5: "\<not> errorMentions (PlainObj JUndefined (JStr ''error'') (JNum 429)) rateLimitKeywords"
    by (simp add: errorMentions_def)
  show ?thesis
    using h1 h2 h3 h4 h5 e1 e2 e3 e4 e5
      classifier_by_effective_status [of "PlainObj JUndefined (JNum 429) JUndefined"]
      classifier_by_effective_status [of "PlainObj JUndefined JNull (JNum 429)"]
      classifier_by_effective_status [of "ErrorObj ''Rate Limit exceeded'' JUndefined JUndefined"]
      classifier_by_effective_status [of "PlainObj JUndefined JUndefined (JNum 503)"]
      classifier_by_effective_status [of "ErrorObj ''Connection Refused'' JUndefined JUndefined"]
      classifier_by_effective_status [of "ErrorObj ''Not Found'' (JNum 404) JUndefined"]
      classifier_by_effective_status [of "PlainObj JUndefined (JStr ''error'') (JNum 429)"]
    by simp
qed

section \<open>Properties of the content validator\<close>

text \<open>
  Claim C8. \<open>validateContent\<close> is total: its only throwing step, the constructor of the
  regular expression, is caught. With validation disabled or an empty pattern every
  content is valid; in regex mode a pattern that does not compile makes every content
  valid, with one warning logged; in literal mode the content is valid exactly when the
  pattern occurs in it; and for a result that is no string the condition of the loops
  is false whatever the settings.
\<close>

theorem validateContent_fails_open:
  "(\<not> requiredContentEnabled s \<or> requiredContentPattern s = []
      \<longrightarrow> validateContent rx content s = (True, []))
   \<and> (requiredContentEnabled s \<and> requiredContentPattern s \<noteq> [] \<and> requiredContentIsRegex s
        \<and> rx (requiredContentPattern s) = None
      \<longrightarrow> validateContent rx content s = (True, [LogInvalidRegex (requiredContentPattern s)]))
   \<and> (requiredContentEnabled s \<and> requiredContentPattern s \<noteq> [] \<and> \<not> requiredContentIsRegex s
      \<longrightarrow> validateContent rx content s
          = ((\<exists>ps ss. content = ps @ requiredContentPattern s @ ss), []))
   \<and> ((\<forall>c. v \<noteq> JStr c) \<longrightarrow> failsValidation rx v s = (False, []))"
  by (cases v) (simp_all add: validateContent_def failsValidation_def str_includes_iff)

theorem validateContent_fails_open_witness:
  "validateContent (\<lambda>p. None) ''anything'' defaultSettings = (True, [])
   \<and> validateContent (\<lambda>p. None) ''anything''
        (defaultSettings\<lparr>requiredContentEnabled := True, requiredContentPattern := ''('',
                          requiredContentIsRegex := True\<rparr>)
       = (True, [LogInvalidRegex ''(''])
   \<and> validateContent (\<lambda>p. None) ''No json here''
        (defaultSettings\<lparr>requiredContentEnabled := True, requiredContentPattern := ''json''\<rparr>)
       = (True, [])
   \<and> validateContent (\<lambda>p. None) ''nothing''
        (defaultSettings\<lparr>requiredContentEnabled := True, requiredContentPattern := ''json''\<rparr>)
       = (False, [])
   \<and> failsValidation (\<lambda>p. None) (JNum 1)
        (defaultSettings\<lparr>requiredContentEnabled := True, requiredContentPattern := ''json''\<rparr>)
       = (False, [])"
proof -
  have e1: "\<exists>ps ss. ''No json here'' = ps @ ''json'' @ ss"
    by (simp only: str_includes_iff [symmetric]) simp
  have e2: "\<not> (\<exists>ps ss. ''nothing'' = ps @ ''json'' @ ss)"
    by (simp only: str_includes_iff [symmetric]) simp
  show ?thesis
    using e1 e2
      validateContent_fails_open [of defaultSettings "\<lambda>p. None" "''anything''" JNull]
      validateContent_fails_open
        [of "defaultSettings\<lparr>requiredContentEnabled := True, requiredContentPattern := ''('',
                              requiredContentIsRegex := True\<rparr>"
            "\<lambda>p. None" "''anything''" JNull]
      validateContent_fails_open
        [of "defaultSettings\<lparr>requiredContentEnabled := True, requiredContentPattern := ''json''\<rparr>"
            "\<lambda>p. None" "''No json here''" "JNum 1"]
      validateContent_fails_open
        [of "defaultSettings\<lparr>requiredContentEnabled := True, requiredContentPattern := ''json''\<rparr>"
            "\<lambda>p. None" "''nothing''" "JNum 1"]
    by (simp add: defaultSettings_def)
qed

section \<open>Effects and background events\<close>

lemma emit_simps [simp]:
  "trace (emit es st) = trace st @ es"
  "ctx (emit es st) = ctx st"
  "activeContexts (emit es st) = activeContexts st"
  by (simp_all add: emit_def)

lemma invocations_append [simp]: "invocations (xs @ ys) = invocations xs @ invocations ys"
  by (induction xs rule: invocations.induct) simp_all

lemma invocations_toastIf [simp]: "invocations (toastIf b n) = []"
  by (simp add: toastIf_def)

lemma invocations_map_Notify [simp]: "invocations (map Notify ns) = []"
  by (induction ns) simp_all

lemma observations_append [simp]: "observations (xs @ ys) = observations xs @ observations ys"
  by (induction xs rule: observations.induct) simp_all

lemma observations_toastIf [simp]: "observations (toastIf b n) = []"
  by (simp add: toastIf_def)

lemma observations_map_Notify [simp]: "observations (map Notify ns) = []"
  by (induction ns) simp_all

lemma updateTokenTime_simps [simp]:
  "trace (updateTokenTime g t st) = trace st"
  "activeContexts (updateTokenTime g t st) = activeContexts st"
  "isStreaming (ctx (updateTokenTime g t st)) = isStreaming (ctx st)"
  "generationId (ctx (updateTokenTime g t st)) = generationId (ctx st)"
  "aborted (ctx (updateTokenTime g t st)) = aborted (ctx st)"
  by (simp_all add: updateTokenTime_def split: option.splits ctxref.splits)

lemma abortRetry_simps [simp]:
  "trace (snd (abortRetry g st)) = trace st"
  "activeContexts (snd (abortRetry g st)) = activeContexts st"
  "isStreaming (ctx (snd (abortRetry g st))) = isStreaming (ctx st)"
  "generationId (ctx (snd (abortRetry g st))) = generationId (ctx st)"
  "aborted (ctx st) \<Longrightarrow> aborted (ctx (snd (abortRetry g st)))"
  by (simp_all add: abortRetry_def split: option.splits ctxref.splits)

lemma background_trace [simp]: "trace (background ev st) = trace st"
  by (cases ev) simp_all

lemma background_static [simp]:
  "isStreaming (ctx (background ev st)) = isStreaming (ctx st)"
  "generationId (ctx (background ev st)) = generationId (ctx st)"
  by (cases ev; simp)+

lemma background_aborted:
  "\<not> isAbort ev \<Longrightarrow> aborted (ctx (background ev st)) = aborted (ctx st)"
  by (cases ev) simp_all

lemma background_aborted_mono:
  "aborted (ctx st) \<Longrightarrow> aborted (ctx (background ev st))"
  by (cases ev) simp_all

lemma fold_background_trace [simp]: "trace (fold background evs st) = trace st"
  by (induction evs arbitrary: st) simp_all

lemma fold_background_aborted:
  "\<forall>ev \<in> set evs. \<not> isAbort ev \<Longrightarrow> aborted (ctx (fold background evs st)) = aborted (ctx st)"
  by (induction evs arbitrary: st) (simp_all add: background_aborted)

lemma handleRetryDelay_simps [simp]:
  "trace (handleRetryDelay a s b evs st) = trace st @ [Sleep (calculateDelay a s b)]"
  by (simp add: handleRetryDelay_def)

section \<open>Properties of the timeout race\<close>

text \<open>
After the cleanup without settlement, nothing settles the race any more.
\<close>

lemma raceEvents_resolved:
  "raceEvents s True False st evs = (None, fold background evs st, [])"
  by (induction s True False st evs rule: raceEvents.induct) simp_all

text \<open>
Without the timer, the race is the operation.
\<close>

lemma raceEvents_no_timer:
  "raceEvents s False False st evs = awaitOperation st evs"
  by (induction s False False st evs rule: raceEvents.induct) simp_all

lemma awaitOperation_fst: "fst (awaitOperation st evs) = firstSettlement evs"
  by (induction st evs rule: awaitOperation.induct) simp_all

lemma awaitOperation_trace: "trace (fst (snd (awaitOperation st evs))) = trace st"
  by (induction st evs rule: awaitOperation.induct) simp_all

text \<open>
The three ways a race ends.
\<close>

lemma raceEvents_cases:
  assumes "raceEvents s r i st evs = (out, st', rest)"
  shows "(out = None \<and> rest = [] \<and> trace st' = trace st)
       \<or> (out \<noteq> None \<and> out = firstSettlement evs \<and> trace st' = trace st \<and> \<not> r)
       \<or> (out = Some (Failed streamingTimeoutError) \<and> i \<and> \<not> r
           \<and> hasReceivedContent (ctx st') \<and> \<not> aborted (ctx st')
           \<and> trace st' = trace st @ StopGeneration (generationId (ctx st'))
                           # toastIf (showRetryToast s) WarningStreamingTimeout)"
  using assms
proof (induction s r i st evs rule: raceEvents.induct)
  case (2 s resolved interval st now evs)
  then show ?case
    by (auto split: if_splits simp: raceEvents_resolved)
qed (auto split: if_splits)

lemma race_trace:
  assumes "raceWithTimeouts s st evs = (out, st', rest)"
  shows "invocations (trace st') = invocations (trace st)"
    and "observations (trace st') = observations (trace st)"
  using raceEvents_cases [OF assms [unfolded raceWithTimeouts_def]] by auto

text \<open>
  Claim C10. For a context that is not streaming, \<open>raceWithTimeouts\<close> installs no timer:
  it is the plain wait for the operation, it settles as the operation does whatever is
  aborted meanwhile, and it has no effect of its own. For any context, a race either
  has not settled, or settles as the operation does, in both cases without an effect,
  or it produces the streaming timeout, and then the context is streaming and its
  content-received flag is true.
\<close>

theorem race_without_timer:
  "(\<not> isStreaming (ctx st) \<longrightarrow>
      raceWithTimeouts s st evs = awaitOperation st evs
      \<and> fst (raceWithTimeouts s st evs) = firstSettlement evs
      \<and> trace (fst (snd (raceWithTimeouts s st evs))) = trace st)
   \<and> (\<forall>out st' rest. raceWithTimeouts s st evs = (out, st', rest) \<longrightarrow>
        ((out = None \<or> out = firstSettlement evs) \<and> trace st' = trace st)
        \<or> (isStreaming (ctx st) \<and> hasReceivedContent (ctx st')
            \<and> out = Some (Failed streamingTimeoutError)
            \<and> trace st' = trace st @ StopGeneration (generationId (ctx st'))
                            # toastIf (showRetryToast s) WarningStreamingTimeout))"
proof (intro conjI impI allI)
  assume "\<not> isStreaming (ctx st)"
  then have eq: "raceWithTimeouts s st evs = awaitOperation st evs"
    by (simp add: raceWithTimeouts_def raceEvents_no_timer)
  then show "raceWithTimeouts s st evs = awaitOperation st evs" .
  from eq show "fst (raceWithTimeouts s st evs) = firstSettlement evs"
    by (simp add: awaitOperation_fst)
  from eq show "trace (fst (snd (raceWithTimeouts s st evs))) = trace st"
    by (simp add: awaitOperation_trace)
next
  fix out st' rest
  assume "raceWithTimeouts s st evs = (out, st', rest)"
  then have "raceEvents s False (isStreaming (ctx st)) st evs = (out, st', rest)"
    by (simp add: raceWithTimeouts_def)
  from raceEvents_cases [OF this]
  show "((out = None \<or> out = firstSettlement evs) \<and> trace st' = trace st)
        \<or> (isStreaming (ctx st) \<and> hasReceivedContent (ctx st')
            \<and> out = Some (Failed streamingTimeoutError)
            \<and> trace st' = trace st @ StopGeneration (generationId (ctx st'))
                            # toastIf (showRetryToast s) WarningStreamingTimeout)"
    by blast
qed

lemmas run_defs = raceWithTimeouts_def sampleState_def sampleConfig_def defaultSettings_def
  abortRetry_def updateTokenTime_def emit_def toastIf_def streamingTimeoutError_def

theorem race_without_timer_witness:
  "\<not> isStreaming (ctx (sampleState False))
   \<and> raceWithTimeouts defaultSettings (sampleState False)
        [TokenReceived ''g'' 5, AbortRequested ''g'', TimerTick 90000, Rejected Primitive]
      = awaitOperation (sampleState False)
        [TokenReceived ''g'' 5, AbortRequested ''g'', TimerTick 90000, Rejected Primitive]
   \<and> fst (raceWithTimeouts defaultSettings (sampleState False)
        [TokenReceived ''g'' 5, AbortRequested ''g'', TimerTick 90000, Rejected Primitive])
      = Some (Failed Primitive)
   \<and> fst (raceWithTimeouts defaultSettings (sampleState True)
        [TokenReceived ''g'' 5, TimerTick 90000, Resolved (JStr ''late'')])
      = Some (Failed streamingTimeoutError)
   \<and> hasReceivedContent (ctx (fst (snd (raceWithTimeouts defaultSettings (sampleState True)
        [TokenReceived ''g'' 5, TimerTick 90000, Resolved (JStr ''late'')]))))"
proof -
  let ?X = "raceWithTimeouts defaultSettings (sampleState True)
              [TokenReceived ''g'' 5, TimerTick 90000, Resolved (JStr ''late'')]"
  have h: "\<not> isStreaming (ctx (sampleState False))"
    by (simp add: sampleState_def)
  have r: "fst ?X = Some (Failed streamingTimeoutError)"
    by (simp add: run_defs)
  have t: "trace (fst (snd ?X)) \<noteq> trace (sampleState True)"
    by (simp add: run_defs)
  have p: "?X = (fst ?X, fst (snd ?X), snd (snd ?X))"
    by simp
  from race_without_timer [of "sampleState False" defaultSettings
      "[TokenReceived ''g'' 5, AbortRequested ''g'', TimerTick 90000, Rejected Primitive]"] h
  have a: "raceWithTimeouts defaultSettings (sampleState False)
        [TokenReceived ''g'' 5, AbortRequested ''g'', TimerTick 90000, Rejected Primitive]
      = awaitOperation (sampleState False)
        [TokenReceived ''g'' 5, AbortRequested ''g'', TimerTick 90000, Rejected Primitive]
   \<and> fst (raceWithTimeouts defaultSettings (sampleState False)
        [TokenReceived ''g'' 5, AbortRequested ''g'', TimerTick 90000, Rejected Primitive])
      = Some (Failed Primitive)"
    by simp
  from race_without_timer [of "sampleState True" defaultSettings
      "[TokenReceived ''g'' 5, TimerTick 90000, Resolved (JStr ''late'')]"] p t
  have b: "hasReceivedContent (ctx (fst (snd ?X)))"
    by blast
  from h a b r show ?thesis by blast
qed

lemma raceEvents_ticks_only:
  "\<not> hasReceivedContent (ctx st) \<Longrightarrow> \<not> aborted (ctx st) \<Longrightarrow>
   raceEvents s False i st (map TimerTick ts @ evs) = raceEvents s False i st evs"
  by (induction ts) auto

text \<open>
  Claim C3 (the code has no such trigger). In a streaming attempt with no token
  received, the polling callback never settles the race, however late it runs: the
  race stays pending, and when the operation settles after any number of ticks the
  race settles with the operation's own value.
\<close>

theorem no_thinking_timeout:
  "raceWithTimeouts s
     (st\<lparr>ctx := (ctx st)\<lparr>isStreaming := True, aborted := False, hasReceivedContent := False\<rparr>\<rparr>)
     (map TimerTick ts)
   = (None,
      st\<lparr>ctx := (ctx st)\<lparr>isStreaming := True, aborted := False, hasReceivedContent := False\<rparr>\<rparr>,
      [])
   \<and> raceWithTimeouts s
     (st\<lparr>ctx := (ctx st)\<lparr>isStreaming := True, aborted := False, hasReceivedContent := False\<rparr>\<rparr>)
     (map TimerTick ts @ [Resolved v])
   = (Some (Fulfilled v),
      st\<lparr>ctx := (ctx st)\<lparr>isStreaming := True, aborted := False, hasReceivedContent := False\<rparr>\<rparr>,
      [])"
  using raceEvents_ticks_only [of "st\<lparr>ctx := (ctx st)\<lparr>isStreaming := True, aborted := False, hasReceivedContent := False\<rparr>\<rparr>" s True ts "[]"]
    raceEvents_ticks_only [of "st\<lparr>ctx := (ctx st)\<lparr>isStreaming := True, aborted := False, hasReceivedContent := False\<rparr>\<rparr>" s True ts "[Resolved v]"]
  by (simp add: raceWithTimeouts_def)

section \<open>Runs on sample inputs\<close>

declare primaryLoop.simps [simp del] fallbackLoop.simps [simp del]

lemma primaryLoop_step:
  "attempt < maxRetries s \<Longrightarrow>
   primaryLoop e s attempt lastError st =
     (case primaryIteration e s attempt st of
        (Continue err, st') \<Rightarrow> primaryLoop e s (attempt + 1) err st'
      | (Break err, st') \<Rightarrow> (Ended (attempt + 1) err, st')
      | (Return r, st') \<Rightarrow> (Returned r, st')
      | (Hang, st') \<Rightarrow> (NeverSettles, st'))"
  by (simp add: primaryLoop.simps)

lemma primaryLoop_done:
  "\<not> attempt < maxRetries s \<Longrightarrow> primaryLoop e s attempt lastError st = (Ended attempt lastError, st)"
  by (simp add: primaryLoop.simps)

lemma fallbackLoop_step:
  "attempt < maxRetries s \<Longrightarrow>
   fallbackLoop e s i fm c attempt lastError st =
     (case fallbackIteration e s i fm c attempt st of
        (Continue err, st') \<Rightarrow> fallbackLoop e s i fm c (attempt + 1) err st'
      | (Break err, st') \<Rightarrow> (Ended (attempt + 1) err, st')
      | (Return r, st') \<Rightarrow> (Returned r, st')
      | (Hang, st') \<Rightarrow> (NeverSettles, st'))"
  by (simp add: fallbackLoop.simps)

lemma fallbackLoop_done:
  "\<not> attempt < maxRetries s \<Longrightarrow>
   fallbackLoop e s i fm c attempt lastError st = (Ended attempt lastError, st)"
  by (simp add: fallbackLoop.simps)

lemmas eval_defs =
  executeWithRetry_def executeRetryLoop_def primaryIteration_def fallbackIteration_def
  primaryLoop_step primaryLoop_done fallbackLoop_step fallbackLoop_done
  raceWithTimeouts_def handleRetryDelay_def emit_def toastIf_def
  shouldRetryGeneration_def generationIdOf_def isStreamingOf_def
  calculateDelay_def failsValidation_def validateContent_def abortRetry_def
  updateTokenTime_def defaultSettings_def sampleConfig_def Let_def

lemmas classify_defs =
  isRetryableError_def isRateLimitError_def toLowerCase_def lowerChar_def nullish_def

lemma networkError_class: "isRetryableError networkError" "\<not> isRateLimitError networkError"
  by (simp_all add: networkError_def classify_defs)

lemma tooManyRequests_class: "isRetryableError tooManyRequests" "isRateLimitError tooManyRequests"
  by (simp_all add: tooManyRequests_def classify_defs)

text \<open>
  Claim C1 (the code caps the rate-limit budget at \<open>maxRetries\<close>). With the default
  settings the rate-limit retry count is 5 and \<open>maxRetries\<close> is 3; a run whose operation
  always fails with status 429 invokes it three times and ends exhausted with
  \<open>attempts = 3\<close>.
\<close>

theorem rate_limit_budget_capped:
  "rateLimitMaxRetries defaultSettings = 5
   \<and> isRateLimitError tooManyRequests
   \<and> fst (executeWithRetry (alwaysRejects tooManyRequests) defaultSettings
            (sampleConfig False) False Map.empty)
     = Some \<lparr>success = False, result = None, error = Some tooManyRequests, attempts = 3,
             usedFallback = False, fallbackModel = None\<rparr>
   \<and> invocations (snd (snd (executeWithRetry (alwaysRejects tooManyRequests) defaultSettings
            (sampleConfig False) False Map.empty)))
     = [(- 1, CallFn), (- 1, CallFn), (- 1, CallFn)]"
  by (simp add: eval_defs alwaysRejects_def tooManyRequests_class)

text \<open>
  Claim C2 (the race does not settle on abort). In a streaming run, once \<^verbatim>\<open>abortRetry\<close>
  was called and the polling callback has run, the run never settles, whatever follows,
  and its registry entry stays; in a run that is not streaming, the same abort followed
  by the success of the operation ends in success.
\<close>

theorem abort_does_not_settle_race:
  "fst (executeWithRetry (abortThenTick evs) defaultSettings (sampleConfig True) False Map.empty)
     = None
   \<and> getActiveContext ''g''
       (fst (snd (executeWithRetry (abortThenTick [Resolved (JStr ''done'')]) defaultSettings
          (sampleConfig True) False Map.empty)))
     = Some ThisRun
   \<and> fst (executeWithRetry (abortThenTick [Resolved (JStr ''done'')]) defaultSettings
            (sampleConfig False) False Map.empty)
     = Some \<lparr>success = True, result = Some (JStr ''done''), error = None, attempts = 1,
             usedFallback = False, fallbackModel = None\<rparr>"
  by (simp add: eval_defs abortThenTick_def raceEvents_resolved getActiveContext_def)

section \<open>What a run reports when it fails\<close>

lemma lastFailure_snoc [simp]:
  "lastFailure tr = le \<Longrightarrow> observations tr' = observations tr @ [x]
   \<Longrightarrow> lastFailure tr' = Some (causeOf x)"
  by (simp add: lastFailure_def split: list.splits)

lemma lastFailure_last:
  "observations tr = xs @ [x] \<Longrightarrow> lastFailure tr = Some (causeOf x)"
  by (cases xs) (simp_all add: lastFailure_def)

lemma lastFailure_cong:
  "observations tr' = observations tr \<Longrightarrow> lastFailure tr' = lastFailure tr"
  by (simp add: lastFailure_def)

lemma attemptsOfLast_alt:
  "attemptsOfLast tr =
     (if invocations tr = [] then 0
      else length (filter (\<lambda>y. fst y = fst (last (invocations tr))) (invocations tr)))"
  by (cases "invocations tr") (simp_all add: attemptsOfLast_def)

lemma attemptsOfLast_replicate:
  assumes "invocations tr = xs @ replicate n (j, c)" and "0 < n"
    and "\<forall>y \<in> set xs. fst y < j"
  shows "attemptsOfLast tr = n"
proof -
  have l: "last (xs @ replicate n (j, c)) = (j, c)"
    using \<open>0 < n\<close> by (simp add: last_append)
  have f: "filter (\<lambda>y. fst y = j) xs = []"
    using assms(3) by (auto simp: filter_empty_conv)
  show ?thesis
    unfolding attemptsOfLast_alt assms(1) l
    using \<open>0 < n\<close> f by simp
qed

lemma attemptsOfLast_cong:
  "invocations tr' = invocations tr \<Longrightarrow> attemptsOfLast tr' = attemptsOfLast tr"
  by (simp add: attemptsOfLast_def)

lemma lastUsable_Cons:
  "lastUsable (fm # fms) =
     (case lastUsable fms of Some x \<Rightarrow> Some x | None \<Rightarrow> if usable fm then Some fm else None)"
  by (auto simp: lastUsable_def split: list.splits)

lemma replicate_step:
  assumes "Suc a \<le> a'"
  shows "x # replicate (a' - Suc a) x = replicate (a' - a) x"
proof -
  from assms have "a' - a = Suc (a' - Suc a)" by arith
  then show ?thesis by simp
qed

lemma primaryIteration_cases:
  assumes "primaryIteration e s a st = (stp, st')"
  shows "case stp of
           Continue le \<Rightarrow>
             (\<exists>x. le = Some (causeOf x) \<and> observations (trace st') = observations (trace st) @ [x])
             \<and> invocations (trace st') = invocations (trace st) @ [(- 1, CallFn)]
         | Break le \<Rightarrow>
             (\<exists>x. le = Some (causeOf x) \<and> observations (trace st') = observations (trace st) @ [x])
             \<and> invocations (trace st') = invocations (trace st) @ [(- 1, CallFn)]
         | Return r \<Rightarrow> success r \<or> error r = Some abortedError
         | Hang \<Rightarrow> True"
proof (cases "aborted (ctx st)")
  case True
  with assms show ?thesis
    by (auto simp: primaryIteration_def)
next
  case False
  define sc where "sc = invoke e (length (invocations (trace st))) CallFn"
  define st1 where "st1 = emit (toastIf (showRetryToast s \<and> 1 < a + 1)
                          (InfoAttempt (a + 1) (maxRetries s)) @ [Invoke (- 1) CallFn])
                    (st\<lparr>ctx := (ctx st)\<lparr>lastTokenTime := startNow sc,
                                         hasReceivedContent := False,
                                         startTime := startNow sc\<rparr>\<rparr>)"
  obtain out st2 rest where race: "raceWithTimeouts s st1 (events sc) = (out, st2, rest)"
    by (cases "raceWithTimeouts s st1 (events sc)") auto
  have inv: "invocations (trace st2) = invocations (trace st) @ [(- 1, CallFn)]"
    and obs: "observations (trace st2) = observations (trace st)"
    using race_trace [OF race] by (simp_all add: st1_def)
  from assms False race show ?thesis
    unfolding primaryIteration_def Let_def sc_def [symmetric] st1_def [symmetric]
    by (cases out; cases "the out")
       (auto simp: inv obs split: if_splits intro: exI [of _ "Fulfilled _"] exI [of _ "Failed _"])
qed

lemma fallbackIteration_cases:
  assumes "fallbackIteration e s i fm c a st = (stp, st')"
  shows "case stp of
           Continue le \<Rightarrow>
             (\<exists>x. le = Some (causeOf x) \<and> observations (trace st') = observations (trace st) @ [x])
             \<and> invocations (trace st') = invocations (trace st) @ [(int i, c)]
         | Break le \<Rightarrow>
             (\<exists>x. le = Some (causeOf x) \<and> observations (trace st') = observations (trace st) @ [x])
             \<and> invocations (trace st') = invocations (trace st) @ [(int i, c)]
         | Return r \<Rightarrow> success r \<or> error r = Some abortedError
         | Hang \<Rightarrow> True"
proof (cases "aborted (ctx st)")
  case True
  with assms show ?thesis
    by (auto simp: fallbackIteration_def)
next
  case False
  define sc where "sc = invoke e (length (invocations (trace st))) c"
  define st1 where "st1 = emit (toastIf (showRetryToast s \<and> 1 < a + 1)
                          (InfoFallbackAttempt (int i + 1) (a + 1) (maxRetries s))
                        @ [Invoke (int i) c])
                    (st\<lparr>ctx := (ctx st)\<lparr>lastTokenTime := startNow sc,
                                         hasReceivedContent := False,
                                         startTime := startNow sc\<rparr>\<rparr>)"
  obtain out st2 rest where race: "raceWithTimeouts s st1 (events sc) = (out, st2, rest)"
    by (cases "raceWithTimeouts s st1 (events sc)") auto
  have inv: "invocations (trace st2) = invocations (trace st) @ [(int i, c)]"
    and obs: "observations (trace st2) = observations (trace st)"
    using race_trace [OF race] by (simp_all add: st1_def)
  from assms False race show ?thesis
    unfolding fallbackIteration_def Let_def sc_def [symmetric] st1_def [symmetric]
    by (cases out; cases "the out")
       (auto simp: inv obs split: if_splits intro: exI [of _ "Fulfilled _"] exI [of _ "Failed _"])
qed

lemma primaryLoop_result:
  assumes "primaryLoop e s a le st = (res, st')" and "le = lastFailure (trace st)"
  shows "case res of
           Ended a' le' \<Rightarrow>
             a \<le> a' \<and> (a < maxRetries s \<longrightarrow> a < a')
             \<and> invocations (trace st') = invocations (trace st) @ replicate (a' - a) (- 1, CallFn)
             \<and> le' = lastFailure (trace st')
         | Returned r \<Rightarrow> success r \<or> error r = Some abortedError
         | NeverSettles \<Rightarrow> True"
  using assms
proof (induction "maxRetries s - a" arbitrary: a le st)
  case 0
  then have "\<not> a < maxRetries s" by simp
  with 0 show ?case by (auto simp: primaryLoop_done)
next
  case (Suc n)
  then have lt: "a < maxRetries s" by simp
  obtain stp st1 where it: "primaryIteration e s a st = (stp, st1)"
    by (cases "primaryIteration e s a st") auto
  note cs = primaryIteration_cases [OF it]
  show ?case
  proof (cases stp)
    case (Continue err)
    with cs obtain x where err: "err = Some (causeOf x)"
      and obs: "observations (trace st1) = observations (trace st) @ [x]"
      and inv: "invocations (trace st1) = invocations (trace st) @ [(- 1, CallFn)]"
      by auto
    from Suc.prems(1) lt it Continue
    have run: "primaryLoop e s (a + 1) err st1 = (res, st')"
      by (simp add: primaryLoop_step)
    have n: "n = maxRetries s - (a + 1)" using Suc.hyps(2) by simp
    have lf: "err = lastFailure (trace st1)"
      using err lastFailure_last [OF obs] by simp
    from Suc.hyps(1) [OF n run lf] show ?thesis
      by (cases res) (auto simp: inv replicate_step)
  next
    case (Break err)
    with cs obtain x where err: "err = Some (causeOf x)"
      and obs: "observations (trace st1) = observations (trace st) @ [x]"
      and inv: "invocations (trace st1) = invocations (trace st) @ [(- 1, CallFn)]"
      by auto
    from Suc.prems(1) lt it Break
    have "res = Ended (a + 1) err" "st' = st1"
      by (simp_all add: primaryLoop_step)
    then show ?thesis
      using err lastFailure_last [OF obs] inv by simp
  next
    case (Return r)
    from Suc.prems(1) lt it Return
    have "res = Returned r" by (simp add: primaryLoop_step)
    with cs Return show ?thesis by simp
  next
    case Hang
    from Suc.prems(1) lt it Hang
    have "res = NeverSettles" by (simp add: primaryLoop_step)
    then show ?thesis by simp
  qed
qed

lemma fallbackLoop_result:
  assumes "fallbackLoop e s i fm c a le st = (res, st')" and "le = lastFailure (trace st)"
  shows "case res of
           Ended a' le' \<Rightarrow>
             a \<le> a' \<and> (a < maxRetries s \<longrightarrow> a < a')
             \<and> invocations (trace st') = invocations (trace st) @ replicate (a' - a) (int i, c)
             \<and> le' = lastFailure (trace st')
         | Returned r \<Rightarrow> success r \<or> error r = Some abortedError
         | NeverSettles \<Rightarrow> True"
  using assms
proof (induction "maxRetries s - a" arbitrary: a le st)
  case 0
  then have "\<not> a < maxRetries s" by simp
  with 0 show ?case by (auto simp: fallbackLoop_done)
next
  case (Suc n)
  then have lt: "a < maxRetries s" by simp
  obtain stp st1 where it: "fallbackIteration e s i fm c a st = (stp, st1)"
    by (cases "fallbackIteration e s i fm c a st") auto
  note cs = fallbackIteration_cases [OF it]
  show ?case
  proof (cases stp)
    case (Continue err)
    with cs obtain x where err: "err = Some (causeOf x)"
      and obs: "observations (trace st1) = observations (trace st) @ [x]"
      and inv: "invocations (trace st1) = invocations (trace st) @ [(int i, c)]"
      by auto
    from Suc.prems(1) lt it Continue
    have run: "fallbackLoop e s i fm c (a + 1) err st1 = (res, st')"
      by (simp add: fallbackLoop_step)
    have n: "n = maxRetries s - (a + 1)" using Suc.hyps(2) by simp
    have lf: "err = lastFailure (trace st1)"
      using err lastFailure_last [OF obs] by simp
    from Suc.hyps(1) [OF n run lf] show ?thesis
      by (cases res) (auto simp: inv replicate_step)
  next
    case (Break err)
    with cs obtain x where err: "err = Some (causeOf x)"
      and obs: "observations (trace st1) = observations (trace st) @ [x]"
      and inv: "invocations (trace st1) = invocations (trace st) @ [(int i, c)]"
      by auto
    from Suc.prems(1) lt it Break
    have "res = Ended (a + 1) err" "st' = st1"
      by (simp_all add: fallbackLoop_step)
    then show ?thesis
      using err lastFailure_last [OF obs] inv by simp
  next
    case (Return r)
    from Suc.prems(1) lt it Return
    have "res = Returned r" by (simp add: fallbackLoop_step)
    with cs Return show ?thesis by simp
  next
    case Hang
    from Suc.prems(1) lt it Hang
    have "res = NeverSettles" by (simp add: fallbackLoop_step)
    then show ?thesis by simp
  qed
qed

lemma fallbackCascade_result:
  assumes "fallbackCascade e s isRaw i fms a le cfg used cur st = (res, st')"
    and "0 < maxRetries s"
    and "le = lastFailure (trace st)"
    and "a = attemptsOfLast (trace st)"
    and "\<forall>y \<in> set (invocations (trace st)). fst y < int i"
  shows "case res of
           FellThrough a' le' used' cur' \<Rightarrow>
             a' = attemptsOfLast (trace st') \<and> le' = lastFailure (trace st')
             \<and> used' = (used \<or> (\<exists>fm \<in> set fms. usable fm))
             \<and> cur' = (case lastUsable fms of Some fm \<Rightarrow> Some fm | None \<Rightarrow> cur)
         | Settled None \<Rightarrow> True
         | Settled (Some r) \<Rightarrow> success r \<or> error r = Some abortedError"
  using assms
proof (induction fms arbitrary: i a le cfg used cur st)
  case Nil
  then show ?case by (auto simp: lastUsable_def)
next
  case (Cons fm fms)
  show ?case
  proof (cases "usable fm")
    case False
    then have skip: "apiurl fm = [] \<or> model fm = []" by (simp add: usable_def)
    let ?st = "emit [Notify (LogSkippingFallback i)] st"
    from Cons.prems(1) skip
    have run: "fallbackCascade e s isRaw (i + 1) fms a le cfg used cur ?st = (res, st')"
      by auto
    have "case res of
           FellThrough a' le' used' cur' \<Rightarrow>
             a' = attemptsOfLast (trace st') \<and> le' = lastFailure (trace st')
             \<and> used' = (used \<or> (\<exists>fm \<in> set fms. usable fm))
             \<and> cur' = (case lastUsable fms of Some fm \<Rightarrow> Some fm | None \<Rightarrow> cur)
         | Settled None \<Rightarrow> True
         | Settled (Some r) \<Rightarrow> success r \<or> error r = Some abortedError"
    proof (rule Cons.IH [OF run Cons.prems(2)])
      show "le = lastFailure (trace ?st)"
        using Cons.prems(3) by (simp add: lastFailure_def)
      show "a = attemptsOfLast (trace ?st)"
        using Cons.prems(4) by (simp add: attemptsOfLast_def)
      show "\<forall>y \<in> set (invocations (trace ?st)). fst y < int (i + 1)"
        using Cons.prems(5) by auto
    qed
    with False show ?thesis
      by (auto simp: lastUsable_Cons split: cascade_end.splits option.splits)
  next
    case True
    then have use: "\<not> (apiurl fm = [] \<or> model fm = [])" by (simp add: usable_def)
    define fallbackConfig where "fallbackConfig =
      cfg\<lparr>custom_api :=
            Some \<lparr>apiurl = apiurl fm, key = key fm, model = model fm, source = source fm\<rparr>\<rparr>"
    define c where
      "c = (if isRaw then CallGenerateRaw fallbackConfig else CallGenerate fallbackConfig)"
    let ?st = "emit (toastIf (showRetryToast s) (InfoTryingFallback (model fm))) st"
    obtain lres st1 where loop: "fallbackLoop e s i fm c 0 le ?st = (lres, st1)"
      by (cases "fallbackLoop e s i fm c 0 le ?st") auto
    have le0: "le = lastFailure (trace ?st)"
      using Cons.prems(3) by (simp add: lastFailure_def)
    note lr = fallbackLoop_result [OF loop le0]
    show ?thesis
    proof (cases lres)
      case (Ended a1 le1)
      with lr Cons.prems(2) have a1: "0 < a1"
        and inv: "invocations (trace st1) = invocations (trace st) @ replicate a1 (int i, c)"
        and le1: "le1 = lastFailure (trace st1)"
        by auto
      from Cons.prems(1) use loop Ended
      have run: "fallbackCascade e s isRaw (i + 1) fms a1 le1 fallbackConfig True (Some fm) st1
                 = (res, st')"
        by (simp add: Let_def fallbackConfig_def [symmetric] c_def [symmetric])
      have "case res of
           FellThrough a' le' used' cur' \<Rightarrow>
             a' = attemptsOfLast (trace st') \<and> le' = lastFailure (trace st')
             \<and> used' = (True \<or> (\<exists>fm \<in> set fms. usable fm))
             \<and> cur' = (case lastUsable fms of Some fm \<Rightarrow> Some fm | None \<Rightarrow> Some fm)
         | Settled None \<Rightarrow> True
         | Settled (Some r) \<Rightarrow> success r \<or> error r = Some abortedError"
      proof (rule Cons.IH [OF run Cons.prems(2) le1])
        show "a1 = attemptsOfLast (trace st1)"
          using attemptsOfLast_replicate [OF inv a1 Cons.prems(5)] by simp
        show "\<forall>y \<in> set (invocations (trace st1)). fst y < int (i + 1)"
          using Cons.prems(5) by (auto simp: inv)
      qed
      with True show ?thesis
        by (auto simp: lastUsable_Cons split: cascade_end.splits option.splits)
    next
      case (Returned r)
      from Cons.prems(1) use loop Returned
      have "res = Settled (Some r)"
        by (simp add: Let_def fallbackConfig_def [symmetric] c_def [symmetric])
      with lr Returned show ?thesis by simp
    next
      case NeverSettles
      from Cons.prems(1) use loop NeverSettles
      have "res = Settled None"
        by (simp add: Let_def fallbackConfig_def [symmetric] c_def [symmetric])
      then show ?thesis by simp
    qed
  qed
qed

lemma executeRetryLoop_failure:
  assumes run: "executeRetryLoop e s cfg isRaw st = (Some r, st')"
    and pos: "0 < maxRetries s"
    and empty: "trace st = []"
    and fail: "\<not> success r" "error r \<noteq> Some abortedError"
  shows "attempts r = attemptsOfLast (trace st') \<and> error r = lastFailure (trace st')
         \<and> usedFallback r = (fallbackModelsEnabled s \<and> (\<exists>fm \<in> set (fallbackModels s). usable fm))
         \<and> fallbackModel r
             = (if fallbackModelsEnabled s then lastUsable (fallbackModels s) else None)"
proof -
  obtain pres st1 where prim: "primaryLoop e s 0 None st = (pres, st1)"
    by (cases "primaryLoop e s 0 None st") auto
  have le0: "None = lastFailure (trace st)"
    by (simp add: empty lastFailure_def)
  note pr = primaryLoop_result [OF prim le0]
  show ?thesis
  proof (cases pres)
    case (Returned r')
    with run prim have "r' = r" by (simp add: executeRetryLoop_def)
    with pr Returned fail show ?thesis by simp
  next
    case NeverSettles
    with run prim show ?thesis by (simp add: executeRetryLoop_def)
  next
    case (Ended a le)
    with pr pos have a: "0 < a"
      and inv: "invocations (trace st1) = replicate a (- 1, CallFn)"
      and le: "le = lastFailure (trace st1)"
      by (auto simp: empty)
    have inv': "invocations (trace st1) = [] @ replicate a (- 1, CallFn)"
      using inv by simp
    have al: "a = attemptsOfLast (trace st1)"
      using attemptsOfLast_replicate [OF inv' a] by simp
    have bound: "\<forall>y \<in> set (invocations (trace st1)). fst y < int 0"
      by (simp add: inv)
    show ?thesis
    proof (cases "fallbackModelsEnabled s \<and> 0 < length (fallbackModels s)")
      case False
      with run prim Ended
      have r: "r = \<lparr>success = False, result = None, error = le, attempts = a,
                    usedFallback = False, fallbackModel = None\<rparr>"
        and st': "st' = emit (toastIf (showFailureToast s) ErrorFailed) st1"
        by (auto simp: executeRetryLoop_def)
      have "attemptsOfLast (trace st') = attemptsOfLast (trace st1)"
        by (rule attemptsOfLast_cong) (simp add: st')
      moreover have "lastFailure (trace st') = lastFailure (trace st1)"
        by (rule lastFailure_cong) (simp add: st')
      ultimately show ?thesis
        using False r al le by (auto simp: lastUsable_def)
    next
      case True
      obtain cres st2 where casc:
        "fallbackCascade e s isRaw 0 (fallbackModels s) a le cfg False None st1 = (cres, st2)"
        by (cases "fallbackCascade e s isRaw 0 (fallbackModels s) a le cfg False None st1") auto
      note cr = fallbackCascade_result [OF casc pos le al bound]
      show ?thesis
      proof (cases cres)
        case (Settled ro)
        with run prim Ended True casc have "ro = Some r"
          by (simp add: executeRetryLoop_def)
        with cr Settled fail show ?thesis by simp
      next
        case (FellThrough a' le' used' cur')
        with run prim Ended True casc
        have r: "r = \<lparr>success = False, result = None, error = le', attempts = a',
                      usedFallback = used', fallbackModel = cur'\<rparr>"
          and st': "st' = emit (toastIf (showFailureToast s) ErrorFailed) st2"
          by (auto simp: executeRetryLoop_def)
        have "attemptsOfLast (trace st') = attemptsOfLast (trace st2)"
          by (rule attemptsOfLast_cong) (simp add: st')
        moreover have "lastFailure (trace st') = lastFailure (trace st2)"
          by (rule lastFailure_cong) (simp add: st')
        ultimately show ?thesis
          using True r cr FellThrough by (auto split: option.splits)
      qed
    qed
  qed
qed

text \<open>
  Claim C4, as stated, fails: with one usable fallback and an operation that always
  fails with a network error, six invocations are made, three by the primary loop and
  three by the fallback loop, and the run reports \<open>attempts = 3\<close>.
\<close>

theorem attempts_not_total_counterexample:
  "fst (executeWithRetry (alwaysRejects networkError)
          (defaultSettings\<lparr>fallbackModelsEnabled := True, fallbackModels := [sampleFallback]\<rparr>)
          (sampleConfig False) False Map.empty)
     = Some \<lparr>success = False, result = None, error = Some networkError, attempts = 3,
             usedFallback = True, fallbackModel = Some sampleFallback\<rparr>
   \<and> length (invocations (snd (snd (executeWithRetry (alwaysRejects networkError)
          (defaultSettings\<lparr>fallbackModelsEnabled := True, fallbackModels := [sampleFallback]\<rparr>)
          (sampleConfig False) False Map.empty))))
     = 6
   \<and> attempts (the (fst (executeWithRetry (alwaysRejects networkError)
          (defaultSettings\<lparr>fallbackModelsEnabled := True, fallbackModels := [sampleFallback]\<rparr>)
          (sampleConfig False) False Map.empty)))
     \<noteq> length (invocations (snd (snd (executeWithRetry (alwaysRejects networkError)
          (defaultSettings\<lparr>fallbackModelsEnabled := True, fallbackModels := [sampleFallback]\<rparr>)
          (sampleConfig False) False Map.empty))))"
  by (simp add: eval_defs alwaysRejects_def networkError_class sampleFallback_def)

text \<open>
  Claim C4, amended. A retried run that ends in failure other than the abort reports in
  \<open>attempts\<close> the number of invocations made for the backend invoked last (the counter
  is reset for each fallback), in \<open>error\<close> the cause of the last failure observed, in
  \<open>usedFallback\<close> whether fallbacks are enabled and one is usable, and in
  \<open>fallbackModel\<close> the last usable descriptor.
\<close>

theorem attempts_of_last_backend:
  assumes "shouldRetryGeneration (generationIdOf e cfg) s"
    and "0 < maxRetries s"
    and "executeWithRetry e s cfg isRaw others = (Some r, reg, tr)"
    and "\<not> success r" and "error r \<noteq> Some abortedError"
  shows "attempts r = attemptsOfLast tr \<and> error r = lastFailure tr
         \<and> usedFallback r = (fallbackModelsEnabled s \<and> (\<exists>fm \<in> set (fallbackModels s). usable fm))
         \<and> fallbackModel r
             = (if fallbackModelsEnabled s then lastUsable (fallbackModels s) else None)"
proof -
  define st where "st =
    \<lparr>activeContexts = (map_option OtherRun \<circ> others)(generationIdOf e cfg \<mapsto> ThisRun),
     ctx = \<lparr>generationId = generationIdOf e cfg, isStreaming = isStreamingOf cfg, config = cfg,
            aborted = False, lastTokenTime = dateNow e,
            hasReceivedContent = False, startTime = dateNow e\<rparr>,
     trace = []\<rparr>"
  obtain ro st' where loop: "executeRetryLoop e s cfg isRaw st = (ro, st')"
    by (cases "executeRetryLoop e s cfg isRaw st") auto
  from assms(1,3) loop have "ro = Some r" and tr: "tr = trace st'"
    by (auto simp: executeWithRetry_def Let_def st_def [symmetric] split: option.splits)
  with loop have run: "executeRetryLoop e s cfg isRaw st = (Some r, st')" by simp
  have "trace st = []" by (simp add: st_def)
  from executeRetryLoop_failure [OF run assms(2) this assms(4,5)] tr
  show ?thesis by simp
qed

theorem attempts_of_last_backend_witness:
  "fst (executeWithRetry (alwaysRejects networkError)
          (defaultSettings\<lparr>fallbackModelsEnabled := True, fallbackModels := [sampleFallback]\<rparr>)
          (sampleConfig False) False Map.empty)
     = Some \<lparr>success = False, result = None, error = Some networkError, attempts = 3,
             usedFallback = True, fallbackModel = Some sampleFallback\<rparr>
   \<and> attemptsOfLast (snd (snd (executeWithRetry (alwaysRejects networkError)
          (defaultSettings\<lparr>fallbackModelsEnabled := True, fallbackModels := [sampleFallback]\<rparr>)
          (sampleConfig False) False Map.empty))) = 3
   \<and> lastFailure (snd (snd (executeWithRetry (alwaysRejects networkError)
          (defaultSettings\<lparr>fallbackModelsEnabled := True, fallbackModels := [sampleFallback]\<rparr>)
          (sampleConfig False) False Map.empty))) = Some networkError
   \<and> lastUsable [sampleFallback] = Some sampleFallback"
proof -
  let ?s = "defaultSettings\<lparr>fallbackModelsEnabled := True, fallbackModels := [sampleFallback]\<rparr>"
  let ?X = "executeWithRetry (alwaysRejects networkError) ?s (sampleConfig False) False Map.empty"
  let ?r = "\<lparr>success = False, result = None, error = Some networkError, attempts = 3,
             usedFallback = True, fallbackModel = Some sampleFallback\<rparr>"
  have r: "fst ?X = Some ?r"
    by (simp add: eval_defs alwaysRejects_def networkError_class sampleFallback_def)
  then have x: "?X = (Some ?r, fst (snd ?X), snd (snd ?X))"
    by (metis prod.collapse)
  have h1: "shouldRetryGeneration (generationIdOf (alwaysRejects networkError) (sampleConfig False)) ?s"
    by (simp add: shouldRetryGeneration_def defaultSettings_def)
  have h2: "0 < maxRetries ?s"
    by (simp add: defaultSettings_def)
  have h3: "\<not> success ?r" by simp
  have h4: "error ?r \<noteq> Some abortedError"
    by (simp add: networkError_def abortedError_def)
  from attempts_of_last_backend [OF h1 h2 x h3 h4] r
  show ?thesis
    by (simp add: defaultSettings_def)
qed

section \<open>Runs whose operation always fails\<close>

lemma streamingTimeoutError_class:
  "isRetryableError streamingTimeoutError" "\<not> isRateLimitError streamingTimeoutError"
  by (simp_all add: streamingTimeoutError_def classify_defs)

lemma raceEvents_failing:
  assumes "\<not> aborted (ctx st)" and "\<forall>ev \<in> set evs. \<not> isAbort ev"
    and "firstSettlement evs = Some (Failed x)"
  shows "\<exists>x' st' rest.
           raceEvents s False i st evs = (Some (Failed x'), st', rest)
           \<and> (x' = x \<or> x' = streamingTimeoutError)
           \<and> \<not> aborted (ctx st') \<and> (\<forall>ev \<in> set rest. \<not> isAbort ev)"
  using assms
proof (induction evs arbitrary: st)
  case Nil
  then show ?case by simp
next
  case (Cons ev evs)
  show ?case
  proof (cases ev)
    case (TimerTick now)
    with Cons show ?thesis by auto
  next
    case (TokenReceived g now)
    with Cons.prems have "\<not> aborted (ctx (background ev st))"
      and "\<forall>ev \<in> set evs. \<not> isAbort ev" and "firstSettlement evs = Some (Failed x)"
      by simp_all
    from Cons.IH [OF this] TokenReceived show ?thesis by simp
  next
    case (AbortRequested g)
    with Cons.prems show ?thesis by simp
  next
    case (OtherRunSet g n)
    with Cons.prems have "\<not> aborted (ctx (background ev st))"
      and "\<forall>ev \<in> set evs. \<not> isAbort ev" and "firstSettlement evs = Some (Failed x)"
      by simp_all
    from Cons.IH [OF this] OtherRunSet show ?thesis by simp
  next
    case (OtherRunDelete g)
    with Cons.prems have "\<not> aborted (ctx (background ev st))"
      and "\<forall>ev \<in> set evs. \<not> isAbort ev" and "firstSettlement evs = Some (Failed x)"
      by simp_all
    from Cons.IH [OF this] OtherRunDelete show ?thesis by simp
  next
    case (Resolved v)
    with Cons.prems show ?thesis by simp
  next
    case (Rejected y)
    with Cons.prems show ?thesis by simp
  qed
qed

lemma primaryIteration_failing:
  assumes na: "\<not> aborted (ctx st)"
    and fo: "failsOrdinarily (events (invoke e (length (invocations (trace st))) CallFn))"
  shows "\<exists>x st'.
           primaryIteration e s a st
             = (if maxRetries s \<le> a + 1 then Break (Some x) else Continue (Some x), st')
           \<and> isRetryableError x \<and> \<not> isRateLimitError x \<and> \<not> aborted (ctx st')
           \<and> invocations (trace st') = invocations (trace st) @ [(- 1, CallFn)]"
proof -
  define sc where "sc = invoke e (length (invocations (trace st))) CallFn"
  define st1 where "st1 = emit (toastIf (showRetryToast s \<and> 1 < a + 1)
                          (InfoAttempt (a + 1) (maxRetries s)) @ [Invoke (- 1) CallFn])
                    (st\<lparr>ctx := (ctx st)\<lparr>lastTokenTime := startNow sc,
                                         hasReceivedContent := False,
                                         startTime := startNow sc\<rparr>\<rparr>)"
  from fo obtain x where noab: "\<forall>ev \<in> set (events sc). \<not> isAbort ev"
    and fs: "firstSettlement (events sc) = Some (Failed x)"
    and cl: "isRetryableError x" "\<not> isRateLimitError x"
    by (auto simp: failsOrdinarily_def sc_def list_all_iff split: option.splits settled.splits)
  have na1: "\<not> aborted (ctx st1)" using na by (simp add: st1_def)
  from raceEvents_failing [OF na1 noab fs, of s "isStreaming (ctx st1)"]
  obtain x' st2 rest where race: "raceWithTimeouts s st1 (events sc) = (Some (Failed x'), st2, rest)"
    and x': "x' = x \<or> x' = streamingTimeoutError"
    and na2: "\<not> aborted (ctx st2)" and rest: "\<forall>ev \<in> set rest. \<not> isAbort ev"
    by (auto simp: raceWithTimeouts_def)
  have inv: "invocations (trace st2) = invocations (trace st) @ [(- 1, CallFn)]"
    using race_trace(1) [OF race] by (simp add: st1_def)
  have cl': "isRetryableError x'" "\<not> isRateLimitError x'"
    using x' cl streamingTimeoutError_class by auto
  show ?thesis
    using na race na2 cl' inv fold_background_aborted [OF rest]
    unfolding primaryIteration_def Let_def sc_def [symmetric] st1_def [symmetric]
    by (auto simp: handleRetryDelay_def)
qed

lemma primaryLoop_failing:
  assumes "\<forall>n. failsOrdinarily (events (invoke e n CallFn))"
    and "\<not> aborted (ctx st)" and "a < maxRetries s"
  shows "\<exists>x st'.
           primaryLoop e s a le st = (Ended (maxRetries s) (Some x), st')
           \<and> isRetryableError x \<and> \<not> isRateLimitError x \<and> \<not> aborted (ctx st')
           \<and> invocations (trace st')
               = invocations (trace st) @ replicate (maxRetries s - a) (- 1, CallFn)"
  using assms(2,3)
proof (induction "maxRetries s - a" arbitrary: a le st)
  case 0
  then show ?case by simp
next
  case (Suc n)
  from assms(1) have fo: "failsOrdinarily (events (invoke e (length (invocations (trace st))) CallFn))"
    by blast
  from primaryIteration_failing [OF Suc.prems(1) fo, of s a]
  obtain x st1 where it: "primaryIteration e s a st
             = (if maxRetries s \<le> a + 1 then Break (Some x) else Continue (Some x), st1)"
    and cl: "isRetryableError x" "\<not> isRateLimitError x" and na1: "\<not> aborted (ctx st1)"
    and inv: "invocations (trace st1) = invocations (trace st) @ [(- 1, CallFn)]"
    by blast
  show ?case
  proof (cases "maxRetries s \<le> a + 1")
    case True
    with Suc.prems(2) have last: "maxRetries s = a + 1" by simp
    from it True Suc.prems(2)
    have "primaryLoop e s a le st = (Ended (a + 1) (Some x), st1)"
      by (simp add: primaryLoop_step)
    with cl na1 inv last show ?thesis by simp
  next
    case False
    then have lt: "a + 1 < maxRetries s" by simp
    have n: "n = maxRetries s - (a + 1)" using Suc.hyps(2) by simp
    from Suc.hyps(1) [OF n na1 lt, of "Some x"]
    obtain y st' where run: "primaryLoop e s (a + 1) (Some x) st1 = (Ended (maxRetries s) (Some y), st')"
      and cly: "isRetryableError y" "\<not> isRateLimitError y" and na': "\<not> aborted (ctx st')"
      and inv': "invocations (trace st')
                  = invocations (trace st1) @ replicate (maxRetries s - (a + 1)) (- 1, CallFn)"
      by blast
    from it False Suc.prems(2) run
    have "primaryLoop e s a le st = (Ended (maxRetries s) (Some y), st')"
      by (simp add: primaryLoop_step)
    moreover have "invocations (trace st')
                  = invocations (trace st) @ replicate (maxRetries s - a) (- 1, CallFn)"
      using inv inv' lt replicate_step [of a "maxRetries s" "(- 1, CallFn)"] by simp
    ultimately show ?thesis using cly na' by blast
  qed
qed

lemma fallbackIteration_invokes:
  assumes "\<not> aborted (ctx st)"
  shows "invocations (trace (snd (fallbackIteration e s i fm c a st)))
           = invocations (trace st) @ [(int i, c)]"
proof -
  define sc where "sc = invoke e (length (invocations (trace st))) c"
  define st1 where "st1 = emit (toastIf (showRetryToast s \<and> 1 < a + 1)
                          (InfoFallbackAttempt (int i + 1) (a + 1) (maxRetries s))
                        @ [Invoke (int i) c])
                    (st\<lparr>ctx := (ctx st)\<lparr>lastTokenTime := startNow sc,
                                         hasReceivedContent := False,
                                         startTime := startNow sc\<rparr>\<rparr>)"
  obtain out st2 rest where race: "raceWithTimeouts s st1 (events sc) = (out, st2, rest)"
    by (cases "raceWithTimeouts s st1 (events sc)") auto
  have inv: "invocations (trace st2) = invocations (trace st) @ [(int i, c)]"
    using race_trace(1) [OF race] by (simp add: st1_def)
  from assms race show ?thesis
    unfolding fallbackIteration_def Let_def sc_def [symmetric] st1_def [symmetric]
    by (cases out; cases "the out") (auto simp: inv)
qed

lemma fallbackIteration_extends:
  "\<exists>more. invocations (trace (snd (fallbackIteration e s i fm c a st)))
            = invocations (trace st) @ more
          \<and> (\<forall>y \<in> set more. fst y = int i)"
proof (cases "aborted (ctx st)")
  case True
  then show ?thesis by (simp add: fallbackIteration_def)
next
  case False
  from fallbackIteration_invokes [OF this, of e s i fm c a] show ?thesis by simp
qed

lemma fallbackLoop_extends:
  "\<exists>more. invocations (trace (snd (fallbackLoop e s i fm c a le st)))
            = invocations (trace st) @ more
          \<and> (\<forall>y \<in> set more. fst y = int i)"
proof (induction "maxRetries s - a" arbitrary: a le st)
  case 0
  then show ?case by (simp add: fallbackLoop_done)
next
  case (Suc n)
  then have lt: "a < maxRetries s" by simp
  obtain stp st1 where it: "fallbackIteration e s i fm c a st = (stp, st1)"
    by (cases "fallbackIteration e s i fm c a st") auto
  from fallbackIteration_extends [of e s i fm c a st] it
  obtain m1 where m1: "invocations (trace st1) = invocations (trace st) @ m1"
    and i1: "\<forall>y \<in> set m1. fst y = int i"
    by auto
  show ?case
  proof (cases stp)
    case (Continue err)
    have n: "n = maxRetries s - (a + 1)" using Suc.hyps(2) by simp
    from Suc.hyps(1) [OF n, of err st1]
    obtain m2 where "invocations (trace (snd (fallbackLoop e s i fm c (a + 1) err st1)))
                      = invocations (trace st1) @ m2"
      and "\<forall>y \<in> set m2. fst y = int i"
      by blast
    with lt it Continue m1 i1
    have "invocations (trace (snd (fallbackLoop e s i fm c a le st)))
            = invocations (trace st) @ (m1 @ m2) \<and> (\<forall>y \<in> set (m1 @ m2). fst y = int i)"
      by (auto simp: fallbackLoop_step)
    then show ?thesis by blast
  qed (use lt it m1 i1 in \<open>simp_all add: fallbackLoop_step\<close>)
qed

lemma fallbackLoop_invokes:
  assumes "\<not> aborted (ctx st)" and "0 < maxRetries s"
  shows "\<exists>more. invocations (trace (snd (fallbackLoop e s i fm c 0 le st)))
            = invocations (trace st) @ (int i, c) # more
          \<and> (\<forall>y \<in> set more. fst y = int i)"
proof -
  obtain stp st1 where it: "fallbackIteration e s i fm c 0 st = (stp, st1)"
    by (cases "fallbackIteration e s i fm c 0 st") auto
  from fallbackIteration_invokes [OF assms(1), of e s i fm c 0] it
  have m1: "invocations (trace st1) = invocations (trace st) @ [(int i, c)]"
    by simp
  show ?thesis
  proof (cases stp)
    case (Continue err)
    from fallbackLoop_extends [of e s i fm c "0 + 1" err st1]
    obtain m2 where "invocations (trace (snd (fallbackLoop e s i fm c (0 + 1) err st1)))
                      = invocations (trace st1) @ m2"
      and "\<forall>y \<in> set m2. fst y = int i"
      by blast
    with assms(2) it Continue m1 show ?thesis
      by (simp add: fallbackLoop_step)
  qed (use assms(2) it m1 in \<open>simp_all add: fallbackLoop_step\<close>)
qed

lemma fallbackCascade_extends:
  "\<exists>more. invocations (trace (snd (fallbackCascade e s isRaw i fms a le cfg used cur st)))
            = invocations (trace st) @ more
          \<and> (\<forall>y \<in> set more. int i \<le> fst y)"
proof (induction fms arbitrary: i a le cfg used cur st)
  case Nil
  then show ?case by simp
next
  case (Cons fm fms)
  show ?case
  proof (cases "apiurl fm = [] \<or> model fm = []")
    case True
    from Cons.IH [of "i + 1" a le cfg used cur "emit [Notify (LogSkippingFallback i)] st"]
    obtain m where "invocations (trace (snd (fallbackCascade e s isRaw (i + 1) fms a le cfg
        used cur (emit [Notify (LogSkippingFallback i)] st)))) = invocations (trace st) @ m"
      and "\<forall>y \<in> set m. int (i + 1) \<le> fst y"
      by auto
    with True have "invocations (trace (snd (fallbackCascade e s isRaw i (fm # fms) a le cfg
        used cur st))) = invocations (trace st) @ m \<and> (\<forall>y \<in> set m. int i \<le> fst y)"
      by auto
    then show ?thesis by blast
  next
    case False
    define c where "c = fallbackCall isRaw cfg fm"
    define st0 where "st0 = emit (toastIf (showRetryToast s) (InfoTryingFallback (model fm))) st"
    obtain lres st1 where loop: "fallbackLoop e s i fm c 0 le st0 = (lres, st1)"
      by (cases "fallbackLoop e s i fm c 0 le st0") auto
    from fallbackLoop_extends [of e s i fm c 0 le st0] loop
    obtain m1 where m1: "invocations (trace st1) = invocations (trace st) @ m1"
      and i1: "\<forall>y \<in> set m1. fst y = int i"
      by (auto simp: st0_def)
    show ?thesis
    proof (cases lres)
      case (Ended a1 le1)
      from Cons.IH [of "i + 1" a1 le1 _ True "Some fm" st1]
      obtain m2 where "invocations (trace (snd (fallbackCascade e s isRaw (i + 1) fms a1 le1
          (cfg\<lparr>custom_api := Some \<lparr>apiurl = apiurl fm, key = key fm, model = model fm,
                                      source = source fm\<rparr>\<rparr>) True (Some fm) st1)))
          = invocations (trace st1) @ m2"
        and "\<forall>y \<in> set m2. int (i + 1) \<le> fst y"
        by blast
      with False loop Ended m1 i1
      have "invocations (trace (snd (fallbackCascade e s isRaw i (fm # fms) a le cfg
          used cur st))) = invocations (trace st) @ (m1 @ m2)
          \<and> (\<forall>y \<in> set (m1 @ m2). int i \<le> fst y)"
        by (auto simp: Let_def c_def fallbackCall_def st0_def)
      then show ?thesis by blast
    qed (use False loop m1 i1 in \<open>simp_all add: Let_def c_def fallbackCall_def st0_def\<close>)
  qed
qed

lemma fallbackCascade_first:
  assumes "\<not> aborted (ctx st)" and "0 < maxRetries s"
  shows "\<exists>tail. invocations (trace (snd (fallbackCascade e s isRaw i fms a le cfg used cur st)))
                  = invocations (trace st) @ tail
          \<and> (\<forall>y \<in> set tail. int i \<le> fst y)
          \<and> (case dropWhile (\<lambda>fm. \<not> usable fm) fms of
                [] \<Rightarrow> tail = []
                      \<and> fst (fallbackCascade e s isRaw i fms a le cfg used cur st)
                          = FellThrough a le used cur
              | fm # _ \<Rightarrow>
                  \<exists>more. tail = (int (i + length (takeWhile (\<lambda>fm. \<not> usable fm) fms)),
                                   fallbackCall isRaw cfg fm) # more)"
  using assms(1)
proof (induction fms arbitrary: i st)
  case Nil
  then show ?case by simp
next
  case (Cons fm fms)
  show ?case
  proof (cases "usable fm")
    case False
    then have skip: "apiurl fm = [] \<or> model fm = []" by (simp add: usable_def)
    have eq: "fallbackCascade e s isRaw i (fm # fms) a le cfg used cur st
              = fallbackCascade e s isRaw (i + 1) fms a le cfg used cur
                  (emit [Notify (LogSkippingFallback i)] st)"
      using skip by simp
    have dw: "dropWhile (\<lambda>fm. \<not> usable fm) (fm # fms) = dropWhile (\<lambda>fm. \<not> usable fm) fms"
      using False by simp
    have tw: "i + length (takeWhile (\<lambda>fm. \<not> usable fm) (fm # fms))
              = i + 1 + length (takeWhile (\<lambda>fm. \<not> usable fm) fms)"
      using False by simp
    have "\<not> aborted (ctx (emit [Notify (LogSkippingFallback i)] st))"
      using Cons.prems by simp
    from Cons.IH [OF this, of "i + 1"]
    obtain tail where
      "invocations (trace (snd (fallbackCascade e s isRaw (i + 1) fms a le cfg used cur
          (emit [Notify (LogSkippingFallback i)] st)))) = invocations (trace st) @ tail"
      and "\<forall>y \<in> set tail. int (i + 1) \<le> fst y"
      and "case dropWhile (\<lambda>fm. \<not> usable fm) fms of
                [] \<Rightarrow> tail = []
                      \<and> fst (fallbackCascade e s isRaw (i + 1) fms a le cfg used cur
                               (emit [Notify (LogSkippingFallback i)] st))
                          = FellThrough a le used cur
              | fm # _ \<Rightarrow>
                  \<exists>more. tail = (int (i + 1 + length (takeWhile (\<lambda>fm. \<not> usable fm) fms)),
                                   fallbackCall isRaw cfg fm) # more"
      by auto
    then have "invocations (trace (snd (fallbackCascade e s isRaw i (fm # fms) a le cfg used
          cur st))) = invocations (trace st) @ tail
          \<and> (\<forall>y \<in> set tail. int i \<le> fst y)
          \<and> (case dropWhile (\<lambda>fm. \<not> usable fm) (fm # fms) of
                [] \<Rightarrow> tail = []
                      \<and> fst (fallbackCascade e s isRaw i (fm # fms) a le cfg used cur st)
                          = FellThrough a le used cur
              | fm' # _ \<Rightarrow>
                  \<exists>more. tail = (int (i + length (takeWhile (\<lambda>fm. \<not> usable fm) (fm # fms))),
                                   fallbackCall isRaw cfg fm') # more)"
      unfolding eq dw tw by auto
    then show ?thesis by blast
  next
    case True
    then have use: "\<not> (apiurl fm = [] \<or> model fm = [])" by (simp add: usable_def)
    from fallbackCascade_extends [of e s isRaw i "fm # fms" a le cfg used cur st]
    obtain tail where tl: "invocations (trace (snd (fallbackCascade e s isRaw i (fm # fms) a le
        cfg used cur st))) = invocations (trace st) @ tail"
      and ge: "\<forall>y \<in> set tail. int i \<le> fst y"
      by blast
    define c where "c = fallbackCall isRaw cfg fm"
    define st0 where "st0 = emit (toastIf (showRetryToast s) (InfoTryingFallback (model fm))) st"
    have na0: "\<not> aborted (ctx st0)" using Cons.prems by (simp add: st0_def)
    obtain lres st1 where loop: "fallbackLoop e s i fm c 0 le st0 = (lres, st1)"
      by (cases "fallbackLoop e s i fm c 0 le st0") auto
    from fallbackLoop_invokes [OF na0 assms(2), of e i fm c le] loop
    obtain m1 where m1: "invocations (trace st1) = invocations (trace st) @ (int i, c) # m1"
      by (auto simp: st0_def)
    have "\<exists>more. invocations (trace (snd (fallbackCascade e s isRaw i (fm # fms) a le cfg used cur st)))
                  = invocations (trace st) @ (int i, c) # more"
    proof (cases lres)
      case (Ended a1 le1)
      from fallbackCascade_extends [of e s isRaw "i + 1" fms a1 le1 _ True "Some fm" st1]
      obtain m2 where "invocations (trace (snd (fallbackCascade e s isRaw (i + 1) fms a1 le1
          (cfg\<lparr>custom_api := Some \<lparr>apiurl = apiurl fm, key = key fm, model = model fm,
                                      source = source fm\<rparr>\<rparr>) True (Some fm) st1)))
          = invocations (trace st1) @ m2"
        by blast
      with use loop Ended m1 show ?thesis
        by (simp add: Let_def c_def fallbackCall_def st0_def)
    qed (use use loop m1 in \<open>simp_all add: Let_def c_def fallbackCall_def st0_def\<close>)
    with tl obtain more where "tail = (int i, c) # more" by auto
    with True tl ge show ?thesis
      by (auto simp: c_def)
  qed
qed

lemma executeRetryLoop_failing:
  assumes fo: "\<forall>n. failsOrdinarily (events (invoke e n CallFn))"
    and na: "\<not> aborted (ctx st)" and pos: "0 < maxRetries s"
  shows "\<exists>tail.
           invocations (trace (snd (executeRetryLoop e s cfg isRaw st)))
             = invocations (trace st) @ replicate (maxRetries s) (- 1, CallFn) @ tail
           \<and> (\<forall>y \<in> set tail. 0 \<le> fst y)
           \<and> (case (if fallbackModelsEnabled s
                     then dropWhile (\<lambda>fm. \<not> usable fm) (fallbackModels s) else []) of
                [] \<Rightarrow>
                  tail = []
                  \<and> (\<exists>x. isRetryableError x \<and> \<not> isRateLimitError x
                        \<and> fst (executeRetryLoop e s cfg isRaw st)
                            = Some \<lparr>success = False, result = None, error = Some x,
                                    attempts = maxRetries s, usedFallback = False,
                                    fallbackModel = None\<rparr>)
              | fm # _ \<Rightarrow>
                  \<exists>more. tail
                    = (int (length (takeWhile (\<lambda>fm. \<not> usable fm) (fallbackModels s))),
                       fallbackCall isRaw cfg fm) # more)"
proof -
  from primaryLoop_failing [OF fo na pos, of None]
  obtain x st1 where prim: "primaryLoop e s 0 None st = (Ended (maxRetries s) (Some x), st1)"
    and cl: "isRetryableError x" "\<not> isRateLimitError x" and na1: "\<not> aborted (ctx st1)"
    and inv: "invocations (trace st1)
               = invocations (trace st) @ replicate (maxRetries s) (- 1, CallFn)"
    by auto
  show ?thesis
  proof (cases "fallbackModelsEnabled s \<and> 0 < length (fallbackModels s)")
    case False
    then have dw: "(if fallbackModelsEnabled s
                     then dropWhile (\<lambda>fm. \<not> usable fm) (fallbackModels s) else []) = []"
      by auto
    from prim False
    have "executeRetryLoop e s cfg isRaw st
          = (Some \<lparr>success = False, result = None, error = Some x,
                    attempts = maxRetries s, usedFallback = False, fallbackModel = None\<rparr>,
             emit (toastIf (showFailureToast s) ErrorFailed) st1)"
      by (auto simp: executeRetryLoop_def)
    with cl inv show ?thesis
      unfolding dw by auto
  next
    case True
    then have en: "fallbackModelsEnabled s" by simp
    let ?C = "fallbackCascade e s isRaw 0 (fallbackModels s) (maxRetries s) (Some x) cfg
                False None st1"
    from fallbackCascade_first [OF na1 pos, of e isRaw 0 "fallbackModels s" "maxRetries s"
        "Some x" cfg False None]
    obtain tail where t1: "invocations (trace (snd ?C)) = invocations (trace st1) @ tail"
      and t0: "\<forall>y \<in> set tail. int 0 \<le> fst y"
      and t2: "case dropWhile (\<lambda>fm. \<not> usable fm) (fallbackModels s) of
                [] \<Rightarrow> tail = [] \<and> fst ?C = FellThrough (maxRetries s) (Some x) False None
              | fm # _ \<Rightarrow>
                  \<exists>more. tail = (int (0 + length (takeWhile (\<lambda>fm. \<not> usable fm) (fallbackModels s))),
                                   fallbackCall isRaw cfg fm) # more"
      by blast
    obtain cres st2 where casc: "?C = (cres, st2)"
      by (cases ?C) auto
    have tr: "invocations (trace (snd (executeRetryLoop e s cfg isRaw st)))
              = invocations (trace st2)"
      using prim True casc
      by (cases cres) (simp_all add: executeRetryLoop_def)
    show ?thesis
    proof (cases "dropWhile (\<lambda>fm. \<not> usable fm) (fallbackModels s)")
      case Nil
      with t2 casc have tl: "tail = []" and cr: "cres = FellThrough (maxRetries s) (Some x) False None"
        by simp_all
      from prim True casc cr
      have res: "fst (executeRetryLoop e s cfg isRaw st)
          = Some \<lparr>success = False, result = None, error = Some x,
                    attempts = maxRetries s, usedFallback = False, fallbackModel = None\<rparr>"
        by (simp add: executeRetryLoop_def)
      have dw: "(if fallbackModelsEnabled s
                  then dropWhile (\<lambda>fm. \<not> usable fm) (fallbackModels s) else []) = []"
        by (simp only: en Nil if_True)
      from res cl tr t1 casc tl inv show ?thesis
        unfolding dw by auto
    next
      case (Cons fm rest)
      with t2 obtain more where
        "tail = (int (length (takeWhile (\<lambda>fm. \<not> usable fm) (fallbackModels s))),
                 fallbackCall isRaw cfg fm) # more"
        by auto
      note tl = this
      have dw: "(if fallbackModelsEnabled s
                  then dropWhile (\<lambda>fm. \<not> usable fm) (fallbackModels s) else []) = fm # rest"
        by (simp only: en Cons if_True)
      from tl tr t1 t0 casc inv show ?thesis
        unfolding dw by auto
    qed
  qed
qed

text \<open>
  Claim C6. Take a retried run whose primary operation, on every call, rejects with a
  retryable failure that is not rate-limited, with no abort requested meanwhile. The
  primary operation is invoked exactly \<open>maxRetries\<close> times, before anything else: every
  later invocation is a fallback's. With fallbacks disabled, or none usable, there is no
  later invocation and the run fails with \<open>attempts = maxRetries\<close>; otherwise the next
  invocation is for the first usable descriptor, at its index in the list: the unusable
  ones before it are skipped.
\<close>

theorem ordinary_failures_use_maxRetries:
  assumes "shouldRetryGeneration (generationIdOf e cfg) s"
    and "\<forall>n. failsOrdinarily (events (invoke e n CallFn))"
    and "0 < maxRetries s"
  shows "\<exists>tail.
           invocations (snd (snd (executeWithRetry e s cfg isRaw others)))
             = replicate (maxRetries s) (- 1, CallFn) @ tail
           \<and> (\<forall>y \<in> set tail. 0 \<le> fst y)
           \<and> (case (if fallbackModelsEnabled s
                     then dropWhile (\<lambda>fm. \<not> usable fm) (fallbackModels s) else []) of
                [] \<Rightarrow>
                  tail = []
                  \<and> (\<exists>x. isRetryableError x \<and> \<not> isRateLimitError x
                        \<and> fst (executeWithRetry e s cfg isRaw others)
                            = Some \<lparr>success = False, result = None, error = Some x,
                                    attempts = maxRetries s, usedFallback = False,
                                    fallbackModel = None\<rparr>)
              | fm # _ \<Rightarrow>
                  \<exists>more. tail
                    = (int (length (takeWhile (\<lambda>fm. \<not> usable fm) (fallbackModels s))),
                       fallbackCall isRaw cfg fm) # more)"
proof -
  define st where "st =
    \<lparr>activeContexts = (map_option OtherRun \<circ> others)(generationIdOf e cfg \<mapsto> ThisRun),
     ctx = \<lparr>generationId = generationIdOf e cfg, isStreaming = isStreamingOf cfg, config = cfg,
            aborted = False, lastTokenTime = dateNow e,
            hasReceivedContent = False, startTime = dateNow e\<rparr>,
     trace = []\<rparr>"
  have na: "\<not> aborted (ctx st)" and em: "invocations (trace st) = []"
    by (simp_all add: st_def)
  have res: "fst (executeWithRetry e s cfg isRaw others) = fst (executeRetryLoop e s cfg isRaw st)"
    and tr: "snd (snd (executeWithRetry e s cfg isRaw others))
             = trace (snd (executeRetryLoop e s cfg isRaw st))"
    using assms(1)
    by (auto simp: executeWithRetry_def Let_def st_def [symmetric] split: prod.splits option.splits)
  from executeRetryLoop_failing [OF assms(2) na assms(3), of cfg isRaw]
  show ?thesis
    unfolding res tr em by simp
qed

theorem ordinary_failures_use_maxRetries_witness:
  "shouldRetryGeneration (generationIdOf (alwaysRejects networkError) (sampleConfig False))
     (defaultSettings\<lparr>fallbackModelsEnabled := True,
                      fallbackModels := [unusableFallback, sampleFallback]\<rparr>)
   \<and> (\<forall>n. failsOrdinarily (events (invoke (alwaysRejects networkError) n CallFn)))
   \<and> (\<exists>more. invocations (snd (snd (executeWithRetry (alwaysRejects networkError)
          (defaultSettings\<lparr>fallbackModelsEnabled := True,
                           fallbackModels := [unusableFallback, sampleFallback]\<rparr>)
          (sampleConfig False) False Map.empty)))
        = [(- 1, CallFn), (- 1, CallFn), (- 1, CallFn),
           (1, CallGenerate ((sampleConfig False)\<lparr>custom_api := Some sampleFallback\<rparr>))] @ more)
   \<and> (\<exists>x. fst (executeWithRetry (alwaysRejects networkError) defaultSettings
                 (sampleConfig False) False Map.empty)
            = Some \<lparr>success = False, result = None, error = Some x, attempts = 3,
                    usedFallback = False, fallbackModel = None\<rparr>)"
proof -
  let ?s = "defaultSettings\<lparr>fallbackModelsEnabled := True,
                           fallbackModels := [unusableFallback, sampleFallback]\<rparr>"
  have h1: "shouldRetryGeneration (generationIdOf (alwaysRejects networkError) (sampleConfig False)) ?s"
    by (simp add: shouldRetryGeneration_def defaultSettings_def)
  have h1': "shouldRetryGeneration (generationIdOf (alwaysRejects networkError) (sampleConfig False))
               defaultSettings"
    by (simp add: shouldRetryGeneration_def defaultSettings_def)
  have h2: "\<forall>n. failsOrdinarily (events (invoke (alwaysRejects networkError) n CallFn))"
    by (simp add: failsOrdinarily_def alwaysRejects_def networkError_class)
  have h3: "0 < maxRetries ?s" "0 < maxRetries defaultSettings"
    by (simp_all add: defaultSettings_def)
  have u: "\<not> usable unusableFallback" "usable sampleFallback"
    by (simp_all add: usable_def unusableFallback_def sampleFallback_def)
  have c: "fallbackCall False (sampleConfig False) sampleFallback
           = CallGenerate ((sampleConfig False)\<lparr>custom_api := Some sampleFallback\<rparr>)"
    by (simp add: fallbackCall_def sampleFallback_def)
  have m: "maxRetries ?s = 3" "maxRetries defaultSettings = 3"
    "fallbackModelsEnabled ?s" "\<not> fallbackModelsEnabled defaultSettings"
    "fallbackModels ?s = [unusableFallback, sampleFallback]"
    by (simp_all add: defaultSettings_def)
  from ordinary_failures_use_maxRetries [OF h1 h2 h3(1), of False Map.empty]
  have a: "\<exists>more. invocations (snd (snd (executeWithRetry (alwaysRejects networkError) ?s
          (sampleConfig False) False Map.empty)))
        = [(- 1, CallFn), (- 1, CallFn), (- 1, CallFn),
           (1, CallGenerate ((sampleConfig False)\<lparr>custom_api := Some sampleFallback\<rparr>))] @ more"
    by (auto simp: m u c numeral_3_eq_3)
  from ordinary_failures_use_maxRetries [OF h1' h2 h3(2), of False Map.empty]
  have b: "\<exists>x. fst (executeWithRetry (alwaysRejects networkError) defaultSettings
                 (sampleConfig False) False Map.empty)
            = Some \<lparr>success = False, result = None, error = Some x, attempts = 3,
                    usedFallback = False, fallbackModel = None\<rparr>"
    by (auto simp: m)
  from h1 h2 a b show ?thesis by blast
qed

section \<open>Runs whose operation is always rate-limited\<close>

lemma raceEvents_static:
  "isStreaming (ctx (fst (snd (raceEvents s r i st evs)))) = isStreaming (ctx st)"
  by (induction s r i st evs rule: raceEvents.induct) simp_all

lemma fold_background_static:
  "isStreaming (ctx (fold background evs st)) = isStreaming (ctx st)"
  by (induction evs arbitrary: st) simp_all

lemma primaryIteration_rate_limited:
  assumes na: "\<not> aborted (ctx st)" and ns: "\<not> isStreaming (ctx st)"
    and fr: "failsRateLimited (events (invoke e (length (invocations (trace st))) CallFn))"
  shows "\<exists>x st'.
           primaryIteration e s a st
             = (if rateLimitMaxRetries s \<le> a + 1 then Break (Some x) else Continue (Some x), st')
           \<and> isRateLimitError x \<and> \<not> aborted (ctx st') \<and> \<not> isStreaming (ctx st')
           \<and> invocations (trace st') = invocations (trace st) @ [(- 1, CallFn)]"
proof -
  define sc where "sc = invoke e (length (invocations (trace st))) CallFn"
  define st1 where "st1 = emit (toastIf (showRetryToast s \<and> 1 < a + 1)
                          (InfoAttempt (a + 1) (maxRetries s)) @ [Invoke (- 1) CallFn])
                    (st\<lparr>ctx := (ctx st)\<lparr>lastTokenTime := startNow sc,
                                         hasReceivedContent := False,
                                         startTime := startNow sc\<rparr>\<rparr>)"
  from fr obtain x where noab: "\<forall>ev \<in> set (events sc). \<not> isAbort ev"
    and fs: "firstSettlement (events sc) = Some (Failed x)"
    and cl: "isRateLimitError x"
    by (auto simp: failsRateLimited_def sc_def list_all_iff split: option.splits settled.splits)
  have na1: "\<not> aborted (ctx st1)" and ns1: "\<not> isStreaming (ctx st1)"
    using na ns by (simp_all add: st1_def)
  from raceEvents_failing [OF na1 noab fs, of s "isStreaming (ctx st1)"]
  obtain x' st2 rest where race: "raceWithTimeouts s st1 (events sc) = (Some (Failed x'), st2, rest)"
    and na2: "\<not> aborted (ctx st2)" and rest: "\<forall>ev \<in> set rest. \<not> isAbort ev"
    by (auto simp: raceWithTimeouts_def)
  have "fst (raceWithTimeouts s st1 (events sc)) = firstSettlement (events sc)"
    using ns1 by (simp add: raceWithTimeouts_def raceEvents_no_timer awaitOperation_fst)
  with race fs have x': "x' = x" by simp
  have ns2: "\<not> isStreaming (ctx st2)"
    using raceEvents_static [of s False "isStreaming (ctx st1)" st1 "events sc"] race ns1
    by (simp add: raceWithTimeouts_def)
  have inv: "invocations (trace st2) = invocations (trace st) @ [(- 1, CallFn)]"
    using race_trace(1) [OF race] by (simp add: st1_def)
  have rt: "isRetryableError x" using cl by (simp add: isRetryableError_def)
  show ?thesis
    using na race na2 ns2 cl rt inv fold_background_aborted [OF rest] x'
    unfolding primaryIteration_def Let_def sc_def [symmetric] st1_def [symmetric]
    by (auto simp: handleRetryDelay_def fold_background_static)
qed

lemma primaryLoop_rate_limited:
  assumes "\<forall>n. failsRateLimited (events (invoke e n CallFn))"
    and "\<not> aborted (ctx st)" and "\<not> isStreaming (ctx st)" and "a < maxRetries s"
  shows "\<exists>x st'.
           primaryLoop e s a le st
             = (Ended (min (maxRetries s) (max (a + 1) (rateLimitMaxRetries s))) (Some x), st')
           \<and> isRateLimitError x
           \<and> invocations (trace st')
               = invocations (trace st)
                 @ replicate (min (maxRetries s) (max (a + 1) (rateLimitMaxRetries s)) - a)
                     (- 1, CallFn)"
  using assms(2,3,4)
proof (induction "maxRetries s - a" arbitrary: a le st)
  case 0
  then show ?case by simp
next
  case (Suc n)
  from assms(1) have fr: "failsRateLimited (events (invoke e (length (invocations (trace st))) CallFn))"
    by blast
  from primaryIteration_rate_limited [OF Suc.prems(1,2) fr, of s a]
  obtain x st1 where it: "primaryIteration e s a st
      = (if rateLimitMaxRetries s \<le> a + 1 then Break (Some x) else Continue (Some x), st1)"
    and cl: "isRateLimitError x" and na1: "\<not> aborted (ctx st1)"
    and ns1: "\<not> isStreaming (ctx st1)"
    and inv: "invocations (trace st1) = invocations (trace st) @ [(- 1, CallFn)]"
    by blast
  show ?case
  proof (cases "rateLimitMaxRetries s \<le> a + 1")
    case True
    with Suc.prems(3) have t: "min (maxRetries s) (max (a + 1) (rateLimitMaxRetries s)) = a + 1"
      by simp
    from it True Suc.prems(3)
    have "primaryLoop e s a le st = (Ended (a + 1) (Some x), st1)"
      by (simp add: primaryLoop_step)
    with cl inv show ?thesis unfolding t by simp
  next
    case False
    then have rl: "a + 1 < rateLimitMaxRetries s" by simp
    from it False Suc.prems(3)
    have step: "primaryLoop e s a le st = primaryLoop e s (a + 1) (Some x) st1"
      by (simp add: primaryLoop_step)
    show ?thesis
    proof (cases "a + 1 < maxRetries s")
      case True
      have n: "n = maxRetries s - (a + 1)" using Suc.hyps(2) by simp
      have t: "max (a + 1 + 1) (rateLimitMaxRetries s) = max (a + 1) (rateLimitMaxRetries s)"
        using rl by simp
      from Suc.hyps(1) [OF n na1 ns1 True, of "Some x"]
      obtain y st' where run: "primaryLoop e s (a + 1) (Some x) st1
          = (Ended (min (maxRetries s) (max (a + 1) (rateLimitMaxRetries s))) (Some y), st')"
        and cly: "isRateLimitError y"
        and inv': "invocations (trace st')
            = invocations (trace st1)
              @ replicate (min (maxRetries s) (max (a + 1) (rateLimitMaxRetries s)) - (a + 1))
                  (- 1, CallFn)"
        unfolding t by blast
      have "Suc a \<le> min (maxRetries s) (max (a + 1) (rateLimitMaxRetries s))"
        using True rl by simp
      from replicate_step [OF this, of "(- 1, CallFn)"] inv inv'
      have "invocations (trace st')
            = invocations (trace st)
              @ replicate (min (maxRetries s) (max (a + 1) (rateLimitMaxRetries s)) - a)
                  (- 1, CallFn)"
        by simp
      with step run cly show ?thesis by auto
    next
      case False
      with Suc.prems(3) have last: "maxRetries s = a + 1" by simp
      with rl have t: "min (maxRetries s) (max (a + 1) (rateLimitMaxRetries s)) = a + 1"
        by simp
      from step last
      have "primaryLoop e s a le st = (Ended (a + 1) (Some x), st1)"
        by (simp add: primaryLoop_done)
      with cl inv show ?thesis unfolding t by simp
    qed
  qed
qed

text \<open>
  The budget of rate-limited failures, for any settings: a retried run that is not
  streaming, has no fallback, and whose operation always fails rate-limited, makes as
  many attempts as the smaller of \<open>maxRetries\<close> and the rate-limit retry count.
\<close>

lemma rate_limited_runs_stop_at_maxRetries:
  assumes "shouldRetryGeneration (generationIdOf e cfg) s"
    and "\<forall>n. failsRateLimited (events (invoke e n CallFn))"
    and "\<not> isStreamingOf cfg" and "\<not> fallbackModelsEnabled s"
    and "0 < maxRetries s" and "0 < rateLimitMaxRetries s"
  shows "\<exists>x. isRateLimitError x
           \<and> fst (executeWithRetry e s cfg isRaw others)
               = Some \<lparr>success = False, result = None, error = Some x,
                       attempts = min (maxRetries s) (rateLimitMaxRetries s),
                       usedFallback = False, fallbackModel = None\<rparr>
           \<and> invocations (snd (snd (executeWithRetry e s cfg isRaw others)))
               = replicate (min (maxRetries s) (rateLimitMaxRetries s)) (- 1, CallFn)"
proof -
  define st where "st =
    \<lparr>activeContexts = (map_option OtherRun \<circ> others)(generationIdOf e cfg \<mapsto> ThisRun),
     ctx = \<lparr>generationId = generationIdOf e cfg, isStreaming = isStreamingOf cfg, config = cfg,
            aborted = False, lastTokenTime = dateNow e,
            hasReceivedContent = False, startTime = dateNow e\<rparr>,
     trace = []\<rparr>"
  have na: "\<not> aborted (ctx st)" and ns: "\<not> isStreaming (ctx st)"
    and em: "invocations (trace st) = []"
    using assms(3) by (simp_all add: st_def)
  have t: "min (maxRetries s) (max (0 + 1) (rateLimitMaxRetries s))
           = min (maxRetries s) (rateLimitMaxRetries s)"
    using assms(6) by simp
  from primaryLoop_rate_limited [OF assms(2) na ns assms(5), of None]
  obtain x st1 where prim: "primaryLoop e s 0 None st
      = (Ended (min (maxRetries s) (rateLimitMaxRetries s)) (Some x), st1)"
    and cl: "isRateLimitError x"
    and inv: "invocations (trace st1)
               = replicate (min (maxRetries s) (rateLimitMaxRetries s)) (- 1, CallFn)"
    unfolding t em by auto
  from prim assms(4)
  have "executeRetryLoop e s cfg isRaw st
        = (Some \<lparr>success = False, result = None, error = Some x,
                  attempts = min (maxRetries s) (rateLimitMaxRetries s),
                  usedFallback = False, fallbackModel = None\<rparr>,
           emit (toastIf (showFailureToast s) ErrorFailed) st1)"
    by (simp add: executeRetryLoop_def)
  with assms(1) cl inv show ?thesis
    by (auto simp: executeWithRetry_def Let_def st_def [symmetric])
qed

section \<open>Properties of the filter gate\<close>



lemma raceEvents_filter [simp]:
  "raceEvents (s\<lparr>filterEnabled := b\<rparr>) r i st evs = raceEvents s r i st evs"
  by (induction s r i st evs rule: raceEvents.induct) simp_all

lemma raceWithTimeouts_filter [simp]:
  "raceWithTimeouts (s\<lparr>filterEnabled := b\<rparr>) st evs = raceWithTimeouts s st evs"
  by (simp add: raceWithTimeouts_def)

lemma handleRetryDelay_filter [simp]:
  "handleRetryDelay a (s\<lparr>filterEnabled := b\<rparr>) rl evs st = handleRetryDelay a s rl evs st"
  by (simp add: handleRetryDelay_def calculateDelay_def)

lemma validateContent_filter [simp]:
  "validateContent rx content (s\<lparr>filterEnabled := b\<rparr>) = validateContent rx content s"
  by (simp add: validateContent_def cong: option.case_cong)

lemma failsValidation_filter [simp]:
  "failsValidation rx v (s\<lparr>filterEnabled := b\<rparr>) = failsValidation rx v s"
  by (cases v) (simp_all add: failsValidation_def)

lemma primaryIteration_filter [simp]:
  "primaryIteration e (s\<lparr>filterEnabled := b\<rparr>) a st = primaryIteration e s a st"
  by (simp add: primaryIteration_def Let_def
      cong: prod.case_cong option.case_cong settled.case_cong if_cong)

lemma fallbackIteration_filter [simp]:
  "fallbackIteration e (s\<lparr>filterEnabled := b\<rparr>) i fm c a st = fallbackIteration e s i fm c a st"
  by (simp add: fallbackIteration_def Let_def
      cong: prod.case_cong option.case_cong settled.case_cong if_cong)

lemma primaryLoop_filter [simp]:
  "primaryLoop e (s\<lparr>filterEnabled := b\<rparr>) a le st = primaryLoop e s a le st"
proof (induction "maxRetries s - a" arbitrary: a le st)
  case 0
  then show ?case by (simp add: primaryLoop_done)
next
  case (Suc n)
  then have lt: "a < maxRetries s" and n: "n = maxRetries s - (a + 1)" by simp_all
  from Suc.hyps(1) [OF n] lt show ?case
    by (simp add: primaryLoop_step split: prod.splits step.splits)
qed

lemma fallbackLoop_filter [simp]:
  "fallbackLoop e (s\<lparr>filterEnabled := b\<rparr>) i fm c a le st = fallbackLoop e s i fm c a le st"
proof (induction "maxRetries s - a" arbitrary: a le st)
  case 0
  then show ?case by (simp add: fallbackLoop_done)
next
  case (Suc n)
  then have lt: "a < maxRetries s" and n: "n = maxRetries s - (a + 1)" by simp_all
  from Suc.hyps(1) [OF n] lt show ?case
    by (simp add: fallbackLoop_step split: prod.splits step.splits)
qed

lemma fallbackCascade_filter [simp]:
  "fallbackCascade e (s\<lparr>filterEnabled := b\<rparr>) isRaw i fms a le cfg used cur st
   = fallbackCascade e s isRaw i fms a le cfg used cur st"
  by (induction fms arbitrary: i a le cfg used cur st)
     (simp_all add: Let_def cong: prod.case_cong loop_end.case_cong if_cong)

lemma executeRetryLoop_filter [simp]:
  "executeRetryLoop e (s\<lparr>filterEnabled := b\<rparr>) cfg isRaw st = executeRetryLoop e s cfg isRaw st"
  by (simp add: executeRetryLoop_def
      cong: prod.case_cong loop_end.case_cong cascade_end.case_cong if_cong)

lemma notFound_class: "\<not> isRetryableError notFound"
  by (simp add: notFound_def classify_defs)



section \<open>Properties of the registry\<close>

lemma heldOnlyAt_update:
  "heldOnlyAt g reg \<Longrightarrow> heldOnlyAt g (reg(g' \<mapsto> OtherRun n))"
  "heldOnlyAt g reg \<Longrightarrow> heldOnlyAt g (reg(g' := None))"
  by (auto simp: heldOnlyAt_def)

lemma background_held:
  "heldOnlyAt g (activeContexts st) \<Longrightarrow> heldOnlyAt g (activeContexts (background ev st))"
  by (cases ev) (simp_all add: heldOnlyAt_update)

lemma fold_background_held:
  "heldOnlyAt g (activeContexts st) \<Longrightarrow> heldOnlyAt g (activeContexts (fold background evs st))"
  by (induction evs arbitrary: st) (simp_all add: background_held)

lemma raceEvents_held:
  "heldOnlyAt g (activeContexts st)
   \<Longrightarrow> heldOnlyAt g (activeContexts (fst (snd (raceEvents s r i st evs))))"
  by (induction s r i st evs rule: raceEvents.induct) (simp_all add: heldOnlyAt_update)

lemma handleRetryDelay_held:
  "heldOnlyAt g (activeContexts st)
   \<Longrightarrow> heldOnlyAt g (activeContexts (handleRetryDelay a s b evs st))"
  by (simp add: handleRetryDelay_def fold_background_held)

lemma primaryIteration_held:
  assumes "heldOnlyAt g (activeContexts st)"
  shows "heldOnlyAt g (activeContexts (snd (primaryIteration e s a st)))"
proof (cases "aborted (ctx st)")
  case True
  with assms show ?thesis by (simp add: primaryIteration_def)
next
  case False
  define sc where "sc = invoke e (length (invocations (trace st))) CallFn"
  define st1 where "st1 = emit (toastIf (showRetryToast s \<and> 1 < a + 1)
                          (InfoAttempt (a + 1) (maxRetries s)) @ [Invoke (- 1) CallFn])
                    (st\<lparr>ctx := (ctx st)\<lparr>lastTokenTime := startNow sc,
                                         hasReceivedContent := False,
                                         startTime := startNow sc\<rparr>\<rparr>)"
  obtain out st2 rest where race: "raceWithTimeouts s st1 (events sc) = (out, st2, rest)"
    by (cases "raceWithTimeouts s st1 (events sc)") auto
  have "heldOnlyAt g (activeContexts st1)" using assms by (simp add: st1_def)
  from raceEvents_held [OF this, of s False "isStreaming (ctx st1)" "events sc"] race
  have h2: "heldOnlyAt g (activeContexts st2)" by (simp add: raceWithTimeouts_def)
  from False race h2 show ?thesis
    unfolding primaryIteration_def Let_def sc_def [symmetric] st1_def [symmetric]
    by (cases out; cases "the out") (auto intro: handleRetryDelay_held)
qed

lemma fallbackIteration_held:
  assumes "heldOnlyAt g (activeContexts st)"
  shows "heldOnlyAt g (activeContexts (snd (fallbackIteration e s i fm c a st)))"
proof (cases "aborted (ctx st)")
  case True
  with assms show ?thesis by (simp add: fallbackIteration_def)
next
  case False
  define sc where "sc = invoke e (length (invocations (trace st))) c"
  define st1 where "st1 = emit (toastIf (showRetryToast s \<and> 1 < a + 1)
                          (InfoFallbackAttempt (int i + 1) (a + 1) (maxRetries s))
                        @ [Invoke (int i) c])
                    (st\<lparr>ctx := (ctx st)\<lparr>lastTokenTime := startNow sc,
                                         hasReceivedContent := False,
                                         startTime := startNow sc\<rparr>\<rparr>)"
  obtain out st2 rest where race: "raceWithTimeouts s st1 (events sc) = (out, st2, rest)"
    by (cases "raceWithTimeouts s st1 (events sc)") auto
  have "heldOnlyAt g (activeContexts st1)" using assms by (simp add: st1_def)
  from raceEvents_held [OF this, of s False "isStreaming (ctx st1)" "events sc"] race
  have h2: "heldOnlyAt g (activeContexts st2)" by (simp add: raceWithTimeouts_def)
  from False race h2 show ?thesis
    unfolding fallbackIteration_def Let_def sc_def [symmetric] st1_def [symmetric]
    by (cases out; cases "the out") (auto intro: handleRetryDelay_held)
qed

lemma primaryLoop_held:
  "heldOnlyAt g (activeContexts st)
   \<Longrightarrow> heldOnlyAt g (activeContexts (snd (primaryLoop e s a le st)))"
proof (induction "maxRetries s - a" arbitrary: a le st)
  case 0
  then show ?case by (simp add: primaryLoop_done)
next
  case (Suc n)
  then have lt: "a < maxRetries s" and n: "n = maxRetries s - (a + 1)" by simp_all
  obtain stp st1 where it: "primaryIteration e s a st = (stp, st1)"
    by (cases "primaryIteration e s a st") auto
  from primaryIteration_held [OF Suc.prems, of e s a] it
  have h1: "heldOnlyAt g (activeContexts st1)" by simp
  from Suc.hyps(1) [OF n h1] lt it h1 show ?case
    by (cases stp) (simp_all add: primaryLoop_step)
qed

lemma fallbackLoop_held:
  "heldOnlyAt g (activeContexts st)
   \<Longrightarrow> heldOnlyAt g (activeContexts (snd (fallbackLoop e s i fm c a le st)))"
proof (induction "maxRetries s - a" arbitrary: a le st)
  case 0
  then show ?case by (simp add: fallbackLoop_done)
next
  case (Suc n)
  then have lt: "a < maxRetries s" and n: "n = maxRetries s - (a + 1)" by simp_all
  obtain stp st1 where it: "fallbackIteration e s i fm c a st = (stp, st1)"
    by (cases "fallbackIteration e s i fm c a st") auto
  from fallbackIteration_held [OF Suc.prems, of e s i fm c a] it
  have h1: "heldOnlyAt g (activeContexts st1)" by simp
  from Suc.hyps(1) [OF n h1] lt it h1 show ?case
    by (cases stp) (simp_all add: fallbackLoop_step)
qed

lemma fallbackCascade_held:
  "heldOnlyAt g (activeContexts st)
   \<Longrightarrow> heldOnlyAt g (activeContexts
         (snd (fallbackCascade e s isRaw i fms a le cfg used cur st)))"
proof (induction fms arbitrary: i a le cfg used cur st)
  case Nil
  then show ?case by simp
next
  case (Cons fm fms)
  show ?case
  proof (cases "apiurl fm = [] \<or> model fm = []")
    case True
    have "heldOnlyAt g (activeContexts (emit [Notify (LogSkippingFallback i)] st))"
      using Cons.prems by simp
    from Cons.IH [OF this, of "i + 1" a le cfg used cur] True show ?thesis by simp
  next
    case False
    define c where "c = fallbackCall isRaw cfg fm"
    define st0 where "st0 = emit (toastIf (showRetryToast s) (InfoTryingFallback (model fm))) st"
    obtain lres st1 where loop: "fallbackLoop e s i fm c 0 le st0 = (lres, st1)"
      by (cases "fallbackLoop e s i fm c 0 le st0") auto
    have "heldOnlyAt g (activeContexts st0)" using Cons.prems by (simp add: st0_def)
    from fallbackLoop_held [OF this, of e s i fm c 0 le] loop
    have h1: "heldOnlyAt g (activeContexts st1)" by simp
    from Cons.IH [OF h1] False loop h1 show ?thesis
      by (cases lres) (simp_all add: Let_def c_def fallbackCall_def st0_def)
  qed
qed

lemma executeRetryLoop_held:
  assumes "heldOnlyAt g (activeContexts st)"
  shows "heldOnlyAt g (activeContexts (snd (executeRetryLoop e s cfg isRaw st)))"
proof -
  obtain pres st1 where prim: "primaryLoop e s 0 None st = (pres, st1)"
    by (cases "primaryLoop e s 0 None st") auto
  from primaryLoop_held [OF assms, of e s 0 None] prim
  have h1: "heldOnlyAt g (activeContexts st1)" by simp
  show ?thesis
  proof (cases pres)
    case (Ended a le)
    obtain cres st2 where casc:
      "fallbackCascade e s isRaw 0 (fallbackModels s) a le cfg False None st1 = (cres, st2)"
      by (cases "fallbackCascade e s isRaw 0 (fallbackModels s) a le cfg False None st1") auto
    from fallbackCascade_held [OF h1, of e s isRaw 0 "fallbackModels s" a le cfg False None] casc
    have h2: "heldOnlyAt g (activeContexts st2)" by simp
    from prim Ended casc h1 h2 show ?thesis
      by (cases cres) (auto simp: executeRetryLoop_def)
  qed (use prim h1 in \<open>simp_all add: executeRetryLoop_def\<close>)
qed

text \<open>
  Claim C9. When a run that registered a context settles, by whatever path, the
  registry has no entry for its generation id, and no entry at all holds the context
  of that run.
\<close>

theorem registry_entry_removed:
  assumes "shouldRetryGeneration (generationIdOf e cfg) s"
    and "executeWithRetry e s cfg isRaw others = (Some r, reg, tr)"
  shows "getActiveContext (generationIdOf e cfg) reg = None
         \<and> (\<forall>g. getActiveContext g reg \<noteq> Some ThisRun)"
proof -
  define st where "st =
    \<lparr>activeContexts = (map_option OtherRun \<circ> others)(generationIdOf e cfg \<mapsto> ThisRun),
     ctx = \<lparr>generationId = generationIdOf e cfg, isStreaming = isStreamingOf cfg, config = cfg,
            aborted = False, lastTokenTime = dateNow e,
            hasReceivedContent = False, startTime = dateNow e\<rparr>,
     trace = []\<rparr>"
  obtain ro st' where loop: "executeRetryLoop e s cfg isRaw st = (ro, st')"
    by (cases "executeRetryLoop e s cfg isRaw st") auto
  from assms loop have reg: "reg = (activeContexts st')(generationIdOf e cfg := None)"
    by (auto simp: executeWithRetry_def Let_def st_def [symmetric] split: option.splits)
  have "heldOnlyAt (generationIdOf e cfg) (activeContexts st)"
    by (auto simp: heldOnlyAt_def st_def)
  from executeRetryLoop_held [OF this, of e s cfg isRaw] loop
  have "heldOnlyAt (generationIdOf e cfg) (activeContexts st')" by simp
  with reg show ?thesis
    by (auto simp: getActiveContext_def heldOnlyAt_def)
qed

theorem registry_entry_removed_witness:
  "fst (executeWithRetry (scripted [Resolved (JStr ''ok'')]) defaultSettings
          (sampleConfig True) False [''g'' \<mapsto> 7])
     = Some \<lparr>success = True, result = Some (JStr ''ok''), error = None, attempts = 1,
             usedFallback = False, fallbackModel = None\<rparr>
   \<and> getActiveContext ''g''
        (fst (snd (executeWithRetry (scripted [Resolved (JStr ''ok'')]) defaultSettings
          (sampleConfig True) False [''g'' \<mapsto> 7]))) = None
   \<and> fst (executeWithRetry (alwaysRejects networkError) defaultSettings
          (sampleConfig False) False Map.empty)
     = Some \<lparr>success = False, result = None, error = Some networkError, attempts = 3,
             usedFallback = False, fallbackModel = None\<rparr>
   \<and> getActiveContext ''g''
        (fst (snd (executeWithRetry (alwaysRejects networkError) defaultSettings
          (sampleConfig False) False Map.empty))) = None
   \<and> fst (executeWithRetry (alwaysRejects notFound) defaultSettings
          (sampleConfig False) False Map.empty)
     = Some \<lparr>success = False, result = None, error = Some notFound, attempts = 1,
             usedFallback = False, fallbackModel = None\<rparr>
   \<and> getActiveContext ''g''
        (fst (snd (executeWithRetry (alwaysRejects notFound) defaultSettings
          (sampleConfig False) False Map.empty))) = None
   \<and> fst (executeWithRetry (scripted [AbortRequested ''g'', Rejected networkError])
          defaultSettings (sampleConfig False) False Map.empty)
     = Some \<lparr>success = False, result = None, error = Some abortedError, attempts = 1,
             usedFallback = False, fallbackModel = None\<rparr>
   \<and> getActiveContext ''g''
        (fst (snd (executeWithRetry (scripted [AbortRequested ''g'', Rejected networkError])
          defaultSettings (sampleConfig False) False Map.empty))) = None"
proof -
  let ?X1 = "executeWithRetry (scripted [Resolved (JStr ''ok'')]) defaultSettings
          (sampleConfig True) False [''g'' \<mapsto> 7]"
  let ?X2 = "executeWithRetry (alwaysRejects networkError) defaultSettings
          (sampleConfig False) False Map.empty"
  let ?X3 = "executeWithRetry (alwaysRejects notFound) defaultSettings
          (sampleConfig False) False Map.empty"
  let ?X4 = "executeWithRetry (scripted [AbortRequested ''g'', Rejected networkError])
          defaultSettings (sampleConfig False) False Map.empty"
  have g: "\<And>e b. generationIdOf e (sampleConfig b) = ''g''"
    by (simp add: generationIdOf_def sampleConfig_def)
  have sh: "\<And>e b. shouldRetryGeneration (generationIdOf e (sampleConfig b)) defaultSettings"
    by (simp add: shouldRetryGeneration_def defaultSettings_def)
  have r1: "fst ?X1 = Some \<lparr>success = True, result = Some (JStr ''ok''), error = None,
             attempts = 1, usedFallback = False, fallbackModel = None\<rparr>"
    by (simp add: eval_defs scripted_def)
  have r2: "fst ?X2 = Some \<lparr>success = False, result = None, error = Some networkError,
             attempts = 3, usedFallback = False, fallbackModel = None\<rparr>"
    by (simp add: eval_defs alwaysRejects_def networkError_class)
  have r3: "fst ?X3 = Some \<lparr>success = False, result = None, error = Some notFound,
             attempts = 1, usedFallback = False, fallbackModel = None\<rparr>"
    by (simp add: eval_defs alwaysRejects_def notFound_class)
  have r4: "fst ?X4 = Some \<lparr>success = False, result = None, error = Some abortedError,
             attempts = 1, usedFallback = False, fallbackModel = None\<rparr>"
    by (simp add: eval_defs scripted_def)
  have c1: "getActiveContext ''g'' (fst (snd ?X1)) = None"
    using registry_entry_removed [OF sh, of "scripted [Resolved (JStr ''ok'')]" True False
        "[''g'' \<mapsto> 7]" _ "fst (snd ?X1)" "snd (snd ?X1)"] r1
    by (simp add: g prod_eq_iff)
  have c2: "getActiveContext ''g'' (fst (snd ?X2)) = None"
    using registry_entry_removed [OF sh, of "alwaysRejects networkError" False False
        Map.empty _ "fst (snd ?X2)" "snd (snd ?X2)"] r2
    by (simp add: g prod_eq_iff)
  have c3: "getActiveContext ''g'' (fst (snd ?X3)) = None"
    using registry_entry_removed [OF sh, of "alwaysRejects notFound" False False
        Map.empty _ "fst (snd ?X3)" "snd (snd ?X3)"] r3
    by (simp add: g prod_eq_iff)
  have c4: "getActiveContext ''g'' (fst (snd ?X4)) = None"
    using registry_entry_removed [OF sh, of "scripted [AbortRequested ''g'', Rejected networkError]"
        False False Map.empty _ "fst (snd ?X4)" "snd (snd ?X4)"] r4
    by (simp add: g prod_eq_iff)
  from r1 r2 r3 r4 c1 c2 c3 c4 show ?thesis by blast
qed

end
